theory Spec2Isabelle
  imports Complex_Main "HOL-Library.Product_Lexorder" "HOL-Library.Multiset"
begin

section \<open>Python values and failures\<close>

text \<open>
  The program is Python 2 (\<^verbatim>\<open>zip(...)[1]\<close> and a list-valued \<^verbatim>\<open>map\<close>). Utilities,
  supplies and allocations are exact numbers (\<^verbatim>\<open>int\<close> and \<^verbatim>\<open>Fraction\<close>): type \<open>rat\<close>.
  Item indices produced by \<^verbatim>\<open>range\<close> are \<open>nat\<close>; the vertices and the matching of the
  bipartite search hold the sentinel \<^verbatim>\<open>-1\<close> and are \<open>int\<close>. The only exceptions the
  code can raise are Python's own.
\<close>

datatype error = IndexError | ValueError | TypeError

text \<open>\<^verbatim>\<open>xs[i]\<close> for an index that cannot be negative.\<close>

definition nth_res :: "'a list \<Rightarrow> nat \<Rightarrow> error + 'a" where
  "nth_res xs i = (if i < length xs then Inr (xs ! i) else Inl IndexError)"

text \<open>\<^verbatim>\<open>min(xs)\<close>: a ValueError on the empty list.\<close>

fun py_min :: "rat list \<Rightarrow> error + rat" where
  "py_min [] = Inl ValueError"
| "py_min (x # xs) = Inr (fold min xs x)"

text \<open>A list comprehension whose body may raise: the first failure ends it.\<close>

fun map_res :: "('a \<Rightarrow> error + 'b) \<Rightarrow> 'a list \<Rightarrow> error + 'b list" where
  "map_res f [] = Inr []"
| "map_res f (x # xs) =
     (case f x of
        Inl e \<Rightarrow> Inl e
      | Inr y \<Rightarrow> (case map_res f xs of Inl e \<Rightarrow> Inl e | Inr ys \<Rightarrow> Inr (y # ys)))"

section \<open>generate_prefs\<close>

text \<open>The sort key \<^verbatim>\<open>lambda v: (-v[0], v[1])\<close>; Python compares the tuples lexicographically.\<close>

definition pref_key :: "rat \<times> nat \<Rightarrow> rat \<times> nat" where
  "pref_key v = (- fst v, snd v)"

text \<open>
  One row of the comprehension:
  \<^verbatim>\<open>list(zip(*sorted(zip(l + dummy, range(t_obj)), key = ...))[1])\<close>.
  \<^verbatim>\<open>zip\<close> stops at the shorter argument; \<^verbatim>\<open>zip(*[])\<close> is empty and its \<^verbatim>\<open>[1]\<close> raises.
\<close>

definition pref_row :: "rat list \<Rightarrow> nat \<Rightarrow> rat list \<Rightarrow> error + nat list" where
  "pref_row dummy t_obj l =
     (let s = sort_key pref_key (zip (l @ dummy) [0..<t_obj])
      in if s = [] then Inl IndexError else Inr (map snd s))"

text \<open>
  \<^verbatim>\<open>c = int(math.ceil(float(m) / n))\<close> is the exact ceiling of \<open>m / n\<close> for every list
  length below \<open>2^53\<close>; it is modelled by the exact ceiling. \<^verbatim>\<open>utils[0]\<close> raises on
  the empty matrix before anything else is computed, so \<open>n\<close> is positive at the division.
\<close>

definition generate_prefs ::
    "rat list list \<Rightarrow> error + (nat \<times> nat \<times> nat \<times> nat list list)" where
  "generate_prefs utils =
     (case utils of
        [] \<Rightarrow> Inl IndexError
      | u0 # _ \<Rightarrow>
          let n = length utils; m = length u0 in
          (case map_res py_min utils of
             Inl e \<Rightarrow> Inl e
           | Inr mins \<Rightarrow>
               (case py_min mins of
                  Inl e \<Rightarrow> Inl e
                | Inr min_util \<Rightarrow>
                    let c = nat \<lceil>rat_of_nat m / rat_of_nat n\<rceil>;
                        t_obj = c * n;
                        dummy = replicate (t_obj - m) (min_util - 1)
                    in (case map_res (pref_row dummy t_obj) utils of
                          Inl e \<Rightarrow> Inl e
                        | Inr prefs \<Rightarrow> Inr (n, m, c, prefs)))))"

text \<open>The inputs the pipeline is meant for: at least one agent, at least one item, all rows of one length.\<close>

definition valid_utils :: "rat list list \<Rightarrow> bool" where
  "valid_utils utils =
     (utils \<noteq> [] \<and> hd utils \<noteq> [] \<and> list_all (\<lambda>l. length l = length (hd utils)) utils)"

text \<open>The utility an agent with row \<open>l\<close> has for column \<open>j\<close>: its own entry, or the dummy value.\<close>

definition padded_util :: "rat list \<Rightarrow> rat \<Rightarrow> nat \<Rightarrow> rat" where
  "padded_util l gmin j = (if j < length l then l ! j else gmin - 1)"

text \<open>\<open>a\<close> is ranked before \<open>b\<close>: higher utility, or equal utility and lower index.\<close>

definition ranks_before :: "rat list \<Rightarrow> rat \<Rightarrow> nat \<Rightarrow> nat \<Rightarrow> bool" where
  "ranks_before l gmin a b =
     (padded_util l gmin a > padded_util l gmin b
      \<or> (padded_util l gmin a = padded_util l gmin b \<and> a < b))"

definition ranked_row :: "rat list \<Rightarrow> rat \<Rightarrow> nat list \<Rightarrow> bool" where
  "ranked_row l gmin row =
     list_all (\<lambda>q. list_all (\<lambda>p. ranks_before l gmin (row ! p) (row ! q)) [0..<q]) [0..<length row]"

lemma map_res_Inr:
  "(\<And>x. x \<in> set xs \<Longrightarrow> f x = Inr (g x)) \<Longrightarrow> map_res f xs = Inr (map g xs)"
  by (induction xs) auto

lemma py_min_Inr:
  assumes "xs \<noteq> []"
  shows "py_min xs = Inr (Min (set xs))"
proof (cases xs)
  case Nil
  then show ?thesis using assms by simp
next
  case (Cons a list)
  show ?thesis using Min.set_eq_fold[of a list] by (simp add: Cons)
qed

lemma ceil_cover: "0 < n \<Longrightarrow> m \<le> nat \<lceil>rat_of_nat m / rat_of_nat n\<rceil> * n"
proof -
  assume n: "0 < n"
  let ?c = "nat \<lceil>rat_of_nat m / rat_of_nat n\<rceil>"
  have nonneg: "0 \<le> \<lceil>rat_of_nat m / rat_of_nat n\<rceil>"
    by (simp add: ceiling_le_iff less_le_trans[of "-1" 0])
  have "rat_of_nat m / rat_of_nat n \<le> rat_of_int \<lceil>rat_of_nat m / rat_of_nat n\<rceil>"
    by (rule le_of_int_ceiling)
  also have "rat_of_int \<lceil>rat_of_nat m / rat_of_nat n\<rceil> = rat_of_nat ?c"
    using nonneg by (metis of_nat_nat)
  finally have "rat_of_nat m / rat_of_nat n \<le> rat_of_nat ?c" .
  moreover have "0 < rat_of_nat n" using n by simp
  ultimately have "rat_of_nat m \<le> rat_of_nat ?c * rat_of_nat n"
    using pos_divide_le_eq by blast
  then have "rat_of_nat m \<le> rat_of_nat (?c * n)" by (simp only: of_nat_mult)
  then show ?thesis by (simp only: of_nat_le_iff)
qed

lemma pref_row_Inr:
  assumes "length l + length dummy = t" "0 < t"
  shows "pref_row dummy t l = Inr (map snd (sort_key pref_key (zip (l @ dummy) [0..<t])))"
proof -
  have "length (sort_key pref_key (zip (l @ dummy) [0..<t])) = t"
    using assms by simp
  then have "sort_key pref_key (zip (l @ dummy) [0..<t]) \<noteq> []"
    using assms(2) by (metis length_0_conv less_numeral_extra(3))
  then show ?thesis by (simp add: pref_row_def Let_def)
qed

lemma mset_pref_row:
  assumes "length xs = t"
  shows "mset (map snd (sort_key pref_key (zip xs [0..<t]))) = mset [0..<t]"
proof -
  have "mset (map snd (sort_key pref_key (zip xs [0..<t]))) = mset (map snd (zip xs [0..<t]))"
    by (simp only: mset_map mset_sort)
  also have "map snd (zip xs [0..<t]) = [0..<t]"
    using assms by simp
  finally show ?thesis .
qed

lemma zip_upt_val: "(v, i) \<in> set (zip xs [0..<t]) \<Longrightarrow> v = xs ! i \<and> i < length xs \<and> i < t"
  by (auto simp: set_zip)

lemma sorted_pref_row:
  assumes len: "length xs = t" and pq: "p < q" "q < t"
  defines "row \<equiv> map snd (sort_key pref_key (zip xs [0..<t]))"
  shows "xs ! (row ! p) > xs ! (row ! q) \<or> (xs ! (row ! p) = xs ! (row ! q) \<and> row ! p < row ! q)"
proof -
  let ?s = "sort_key pref_key (zip xs [0..<t])"
  have ls: "length ?s = t" using len by simp
  have srt: "sorted (map pref_key ?s)" by (rule sorted_sort_key)
  have le: "pref_key (?s ! p) \<le> pref_key (?s ! q)"
    using sorted_nth_mono[OF srt, of p q] pq ls by simp
  have memp: "?s ! p \<in> set (zip xs [0..<t])" and memq: "?s ! q \<in> set (zip xs [0..<t])"
    using pq ls by (metis nth_mem set_sort order.strict_trans)+
  have vp: "fst (?s ! p) = xs ! snd (?s ! p)" using zip_upt_val[of "fst (?s ! p)" "snd (?s ! p)"] memp by simp
  have vq: "fst (?s ! q) = xs ! snd (?s ! q)" using zip_upt_val[of "fst (?s ! q)" "snd (?s ! q)"] memq by simp
  have dist: "distinct (map snd ?s)"
  proof -
    have "mset (map snd ?s) = mset [0..<t]" using mset_pref_row[OF len] .
    then show ?thesis by (metis distinct_upt mset_eq_imp_distinct_iff)
  qed
  have ne: "snd (?s ! p) \<noteq> snd (?s ! q)"
    using dist pq ls by (auto simp: distinct_conv_nth)
  have rp: "row ! p = snd (?s ! p)" and rq: "row ! q = snd (?s ! q)"
    using pq ls by (simp_all add: row_def)
  from le have "- fst (?s ! p) < - fst (?s ! q) \<or> (- fst (?s ! p) = - fst (?s ! q) \<and> snd (?s ! p) \<le> snd (?s ! q))"
    by (auto simp: pref_key_def less_eq_prod_def)
  with ne vp vq rp rq show ?thesis by auto
qed


lemma map_res_py_min_empty: "[] \<in> set xs \<Longrightarrow> map_res py_min xs = Inl ValueError"
proof (induction xs)
  case Nil
  then show ?case by simp
next
  case (Cons a xs)
  show ?case
  proof (cases a)
    case Nil
    then show ?thesis by simp
  next
    case (Cons b bs)
    then have "[] \<in> set xs" using Cons.prems by auto
    then show ?thesis using Cons.IH Cons by simp
  qed
qed

lemma ceil_tight: "0 < n \<Longrightarrow> nat \<lceil>rat_of_nat m / rat_of_nat n\<rceil> * n < m + n"
proof -
  assume n: "0 < n"
  let ?x = "rat_of_nat m / rat_of_nat n"
  let ?c = "nat \<lceil>?x\<rceil>"
  have nonneg: "0 \<le> \<lceil>?x\<rceil>"
    by (simp add: ceiling_le_iff less_le_trans[of "-1" 0])
  have pos: "0 < rat_of_nat n" using n by simp
  have "rat_of_int \<lceil>?x\<rceil> < ?x + 1" using ceiling_correct[of ?x] by linarith
  moreover have "rat_of_int \<lceil>?x\<rceil> = rat_of_nat ?c"
    using nonneg by (metis of_nat_nat)
  ultimately have "rat_of_nat ?c < ?x + 1" by linarith
  then have "rat_of_nat ?c * rat_of_nat n < (?x + 1) * rat_of_nat n"
    using pos by (rule mult_strict_right_mono)
  also have "(?x + 1) * rat_of_nat n = rat_of_nat m + rat_of_nat n"
    using pos by (simp add: field_simps)
  finally have "rat_of_nat (?c * n) < rat_of_nat (m + n)"
    by (simp only: of_nat_mult of_nat_add)
  then show ?thesis by (simp only: of_nat_less_iff)
qed

lemma Min_rows:
  assumes "utils \<noteq> []" "[] \<notin> set utils"
  shows "Min (set (map (\<lambda>l. Min (set l)) utils)) = Min (\<Union> (set ` set utils))"
proof (rule Min_eqI[symmetric])
  let ?A = "\<Union> (set ` set utils)"
  let ?B = "set (map (\<lambda>l. Min (set l)) utils)"
  show "finite ?A" by simp
  have ne: "?B \<noteq> {}" using assms(1) by simp
  show "Min ?B \<le> y" if "y \<in> ?A" for y
  proof -
    from that obtain l where l: "l \<in> set utils" "y \<in> set l" by auto
    have "Min ?B \<le> Min (set l)" using l(1) by (intro Min_le) auto
    also have "Min (set l) \<le> y" using l(2) by (intro Min_le) auto
    finally show ?thesis .
  qed
  have "Min ?B \<in> ?B" using ne by (intro Min_in) auto
  then obtain l where l: "l \<in> set utils" "Min ?B = Min (set l)" by auto
  then have "l \<noteq> []" using assms(2) by auto
  then have "Min (set l) \<in> set l" by (intro Min_in) auto
  then show "Min ?B \<in> ?A" using l by auto
qed

lemma generate_prefs_Inr:
  assumes ne: "utils \<noteq> []" and rows: "[] \<notin> set utils"
  defines "n \<equiv> length utils" and "m \<equiv> length (hd utils)"
  defines "c \<equiv> nat \<lceil>rat_of_nat m / rat_of_nat n\<rceil>"
  defines "gmin \<equiv> Min (\<Union> (set ` set utils))"
  shows "generate_prefs utils =
     Inr (n, m, c, map (\<lambda>l. map snd (sort_key pref_key
            (zip (l @ replicate (c * n - m) (gmin - 1)) [0..<c * n]))) utils)"
proof -
  obtain u0 us where u: "utils = u0 # us" using ne by (cases utils) auto
  have npos: "0 < n" using ne by (simp add: n_def)
  have "hd utils \<in> set utils" using ne by simp
  then have mpos: "0 < m" using rows by (auto simp: m_def)
  have cover: "m \<le> c * n" unfolding c_def by (rule ceil_cover[OF npos])
  have m1: "map_res py_min utils = Inr (map (\<lambda>l. Min (set l)) utils)"
  proof (rule map_res_Inr)
    fix x assume "x \<in> set utils"
    then have "x \<noteq> []" using rows by auto
    then show "py_min x = Inr (Min (set x))" by (rule py_min_Inr)
  qed
  have m2: "py_min (map (\<lambda>l. Min (set l)) utils) = Inr gmin"
    using py_min_Inr[of "map (\<lambda>l. Min (set l)) utils"] ne Min_rows[OF ne rows]
    by (simp add: gmin_def)
  have m3: "map_res (pref_row (replicate (c * n - m) (gmin - 1)) (c * n)) utils =
     Inr (map (\<lambda>l. map snd (sort_key pref_key
            (zip (l @ replicate (c * n - m) (gmin - 1)) [0..<c * n]))) utils)"
  proof (rule map_res_Inr)
    fix l assume "l \<in> set utils"
    then have lne: "l \<noteq> []" using rows by auto
    have tpos: "0 < c * n" by (rule less_le_trans[OF mpos cover])
    let ?d = "replicate (c * n - m) (gmin - 1)"
    have "0 < length l" using lne by simp
    then have "0 < min (length l + (c * n - m)) (c * n)"
      using tpos by (simp only: min_less_iff_conj add_gr_0 simp_thms)
    then have "length (sort_key pref_key (zip (l @ ?d) [0..<c * n])) \<noteq> 0"
      by (simp only: length_sort length_zip length_append length_replicate length_upt diff_zero)
    then have "sort_key pref_key (zip (l @ ?d) [0..<c * n]) \<noteq> []"
      by (simp only: length_0_conv not_False_eq_True)
    then show "pref_row ?d (c * n) l =
        Inr (map snd (sort_key pref_key (zip (l @ ?d) [0..<c * n])))"
      by (simp add: pref_row_def Let_def)
  qed
  show ?thesis
    by (simp only: generate_prefs_def Let_def list.case_eq_if ne if_False
        n_def[symmetric] m_def[symmetric] c_def[symmetric] m1 m2 m3 sum.case)
qed

lemma ranked_rowI:
  assumes "\<And>p q. p < q \<Longrightarrow> q < length row \<Longrightarrow> ranks_before l gmin (row ! p) (row ! q)"
  shows "ranked_row l gmin row"
  unfolding ranked_row_def list_all_iff
proof (intro ballI)
  fix q p assume "q \<in> set [0..<length row]" "p \<in> set [0..<q]"
  then have "p < q" "q < length row" by simp_all
  then show "ranks_before l gmin (row ! p) (row ! q)" by (rule assms)
qed

lemma valid_utilsD:
  assumes "valid_utils utils"
  shows "utils \<noteq> []" "hd utils \<noteq> []"
    "\<And>l. l \<in> set utils \<Longrightarrow> length l = length (hd utils)"
  using assms unfolding valid_utils_def list_all_iff by blast+

text \<open>
  Claim C4. For a valid utility matrix (\<open>n \<ge> 1\<close>, \<open>m \<ge> 1\<close>, all rows of length \<open>m\<close>),
  \<open>generate_prefs\<close> returns \<open>n\<close>, \<open>m\<close>, \<open>c\<close> = the ceiling of \<open>m / n\<close> (the one
  \<open>c\<close> with \<open>m \<le> c n < m + n\<close>) and one row per agent; each row is a permutation of
  \<open>[0, c n)\<close>, and of any two positions the earlier holds the column of higher utility, or
  of equal utility and lower index, where the dummy columns \<open>m .. c n - 1\<close> count as the
  global minimum utility minus one.
\<close>

theorem generate_prefs_ranking:
  assumes "valid_utils utils"
  shows "\<exists>prefs c. generate_prefs utils = Inr (length utils, length (hd utils), c, prefs)
           \<and> length (hd utils) \<le> c * length utils
           \<and> c * length utils < length (hd utils) + length utils
           \<and> length prefs = length utils
           \<and> (\<forall>i < length utils.
                 mset (prefs ! i) = mset [0..<c * length utils]
                 \<and> ranked_row (utils ! i) (Min (\<Union> (set ` set utils))) (prefs ! i))"
proof -
  define n where "n = length utils"
  define m where "m = length (hd utils)"
  define c where "c = nat \<lceil>rat_of_nat m / rat_of_nat n\<rceil>"
  define gmin where "gmin = Min (\<Union> (set ` set utils))"
  define d where "d = replicate (c * n - m) (gmin - 1)"
  define prefs where "prefs = map (\<lambda>l. map snd (sort_key pref_key (zip (l @ d) [0..<c * n]))) utils"
  have ne: "utils \<noteq> []" and hne: "hd utils \<noteq> []"
    and rect: "\<And>l. l \<in> set utils \<Longrightarrow> length l = m"
    unfolding m_def by (rule valid_utilsD[OF assms])+
  have rows: "[] \<notin> set utils"
  proof
    assume "[] \<in> set utils"
    from rect[OF this] have "m = 0" by simp
    then show False using hne unfolding m_def by simp
  qed
  have npos: "0 < n" using ne by (simp add: n_def)
  have cover: "m \<le> c * n" unfolding c_def by (rule ceil_cover[OF npos])
  have tight: "c * n < m + n" unfolding c_def by (rule ceil_tight[OF npos])
  have gp: "generate_prefs utils = Inr (n, m, c, prefs)"
    using generate_prefs_Inr[OF ne rows]
    by (simp only: n_def m_def c_def gmin_def d_def prefs_def)
  have row: "mset (prefs ! i) = mset [0..<c * n] \<and> ranked_row (utils ! i) gmin (prefs ! i)"
    if i: "i < n" for i
  proof -
    let ?l = "utils ! i"
    have lm: "length ?l = m" using i rect by (simp add: n_def)
    have len: "length (?l @ d) = c * n" using lm cover by (simp add: d_def)
    have pi: "prefs ! i = map snd (sort_key pref_key (zip (?l @ d) [0..<c * n]))"
      using i by (simp add: prefs_def n_def)
    have lpi: "length (prefs ! i) = c * n" using len by (simp add: pi)
    have val: "(?l @ d) ! j = padded_util ?l gmin j" if "j < c * n" for j
      using that lm by (simp add: padded_util_def nth_append d_def)
    have inrange: "prefs ! i ! p < c * n" if "p < c * n" for p
    proof -
      have "prefs ! i ! p \<in> set (prefs ! i)" using that lpi by simp
      also have "set (prefs ! i) = set [0..<c * n]"
        using mset_pref_row[OF len] by (metis pi set_mset_mset)
      finally show ?thesis by simp
    qed
    have "ranked_row ?l gmin (prefs ! i)"
    proof (rule ranked_rowI)
      fix p q assume pq: "p < q" "q < length (prefs ! i)"
      then have q: "q < c * n" and p: "p < c * n" using lpi by simp_all
      show "ranks_before ?l gmin (prefs ! i ! p) (prefs ! i ! q)"
        using sorted_pref_row[OF len pq(1) q] val[OF inrange[OF p]] val[OF inrange[OF q]]
        by (simp add: ranks_before_def pi)
    qed
    then show ?thesis using mset_pref_row[OF len] by (simp add: pi)
  qed
  have "length prefs = n" by (simp add: prefs_def n_def)
  with gp cover tight row show ?thesis
    unfolding n_def m_def gmin_def by blast
qed

theorem generate_prefs_ranking_witness:
  "valid_utils [[4, 3, 2, 1], [4, 2, 3, 1], [1, 2, 3, 4]]
   \<and> (\<exists>prefs. generate_prefs [[4, 3, 2, 1], [4, 2, 3, 1], [1, 2, 3, 4]] = Inr (3, 4, 2, prefs)
        \<and> mset (prefs ! 2) = mset [0..<6]
        \<and> ranked_row [1, 2, 3, 4] 1 (prefs ! 2))"
proof -
  let ?U = "[[4, 3, 2, 1], [4, 2, 3, 1], [1, 2, 3, 4 :: rat]]"
  have v: "valid_utils ?U" unfolding valid_utils_def by simp
  have g: "Min (\<Union> (set ` set ?U)) = 1" by simp
  from generate_prefs_ranking[OF v] obtain prefs c where
    h: "generate_prefs ?U = Inr (length ?U, length (hd ?U), c, prefs)"
       "length (hd ?U) \<le> c * length ?U" "c * length ?U < length (hd ?U) + length ?U"
       "\<forall>i < length ?U. mset (prefs ! i) = mset [0..<c * length ?U]
            \<and> ranked_row (?U ! i) (Min (\<Union> (set ` set ?U))) (prefs ! i)"
    by blast
  have c: "c = 2" using h(2,3) by simp
  have "mset (prefs ! 2) = mset [0..<c * length ?U]
            \<and> ranked_row (?U ! 2) (Min (\<Union> (set ` set ?U))) (prefs ! 2)"
    using h(4)[rule_format, of 2] by simp
  then have "mset (prefs ! 2) = mset [0..<6] \<and> ranked_row [1, 2, 3, 4] 1 (prefs ! 2)"
    by (simp only: g c) simp
  with v h(1) c show ?thesis by simp
qed

text \<open>
  Claim C8, as the code has it. \<open>generate_prefs\<close> validates nothing and knows no
  ValidationError. The empty matrix fails with Python's IndexError (at \<^verbatim>\<open>utils[0]\<close>), a
  matrix with an empty row (so also \<open>m = 0\<close>) fails with Python's ValueError (at \<^verbatim>\<open>min\<close>),
  and every other matrix, rectangular or not, is accepted: a result is returned with one
  preference row per input row.
\<close>

theorem generate_prefs_outcomes:
  "(utils = [] \<longrightarrow> generate_prefs utils = Inl IndexError)
   \<and> (utils \<noteq> [] \<and> [] \<in> set utils \<longrightarrow> generate_prefs utils = Inl ValueError)
   \<and> (utils \<noteq> [] \<and> [] \<notin> set utils \<longrightarrow>
        (\<exists>c prefs. generate_prefs utils = Inr (length utils, length (hd utils), c, prefs)
            \<and> length prefs = length utils))"
proof (intro conjI impI)
  assume "utils = []"
  then show "generate_prefs utils = Inl IndexError" by (simp add: generate_prefs_def)
next
  assume a: "utils \<noteq> [] \<and> [] \<in> set utils"
  then have "map_res py_min utils = Inl ValueError" by (simp add: map_res_py_min_empty)
  then show "generate_prefs utils = Inl ValueError"
    using a by (simp only: generate_prefs_def Let_def list.case_eq_if if_False sum.case)
next
  assume a: "utils \<noteq> [] \<and> [] \<notin> set utils"
  then show "\<exists>c prefs. generate_prefs utils = Inr (length utils, length (hd utils), c, prefs)
            \<and> length prefs = length utils"
    using generate_prefs_Inr[of utils] by simp
qed

theorem generate_prefs_outcomes_witness:
  "generate_prefs [] = Inl IndexError
   \<and> generate_prefs [[1, 2], []] = Inl ValueError
   \<and> (\<exists>c prefs. generate_prefs [[1], [2, 3]] = Inr (2, 1, c, prefs) \<and> length prefs = 2)"
  using generate_prefs_outcomes[of "[]"] generate_prefs_outcomes[of "[[1, 2], []]"]
    generate_prefs_outcomes[of "[[1], [2, 3]]"]
  by (simp add: numeral_2_eq_2)

text \<open>
  Claim C8 as stated fails: rows of lengths 2 and 1 raise nothing, and the second agent's
  row is not even a permutation.
\<close>

theorem generate_prefs_ragged_accepted:
  "generate_prefs [[1, 2], [3]] = Inr (2, 2, 1, [[1, 0], [0]])"
  by (simp add: generate_prefs_def pref_row_def pref_key_def)

section \<open>run_ps\<close>

text \<open>
  The loop state of \<^verbatim>\<open>run_ps\<close>: the private copy \<^verbatim>\<open>prefs\<close> of the preference lists,
  the remaining supplies \<^verbatim>\<open>objs\<close> and the allocation \<^verbatim>\<open>alloc\<close>.
\<close>

type_synonym ps_state = "nat list list \<times> rat list \<times> rat list list"

text \<open>
  \<^verbatim>\<open>Counter([l[0] for l in prefs]).most_common()\<close>: every distinct favourite with the
  number of agents that favour it. The loop over it computes a minimum, so the order of the
  pairs does not matter.
\<close>

definition most_common :: "nat list \<Rightarrow> (nat \<times> nat) list" where
  "most_common favs = map (\<lambda>x. (x, count_list favs x)) (remdups favs)"

text \<open>The loop \<^verbatim>\<open>for count in counts\<close> that lowers \<^verbatim>\<open>to_eat\<close>.\<close>

fun eat_amount :: "rat list \<Rightarrow> (nat \<times> nat) list \<Rightarrow> rat \<Rightarrow> error + rat" where
  "eat_amount objs [] to_eat = Inr to_eat"
| "eat_amount objs (cnt # counts) to_eat =
     (case nth_res objs (fst cnt) of
        Inl e \<Rightarrow> Inl e
      | Inr left \<Rightarrow>
          let amt = left / rat_of_nat (snd cnt)
          in eat_amount objs counts (if to_eat > amt then amt else to_eat))"

text \<open>The loop \<^verbatim>\<open>for agent in range(n)\<close>: each agent eats \<^verbatim>\<open>to_eat\<close> of its favourite.\<close>

fun eat_round ::
    "nat list list \<Rightarrow> rat \<Rightarrow> nat list \<Rightarrow> rat list list \<times> rat list
      \<Rightarrow> error + (rat list list \<times> rat list)" where
  "eat_round prefs to_eat [] (alloc, objs) = Inr (alloc, objs)"
| "eat_round prefs to_eat (agent # agents) (alloc, objs) =
     (case nth_res prefs agent of
        Inl e \<Rightarrow> Inl e
      | Inr l \<Rightarrow>
          (case nth_res l 0 of
             Inl e \<Rightarrow> Inl e
           | Inr fav_obj \<Rightarrow>
               (case nth_res alloc agent of
                  Inl e \<Rightarrow> Inl e
                | Inr row \<Rightarrow>
                    if fav_obj < length row \<and> fav_obj < length objs
                    then eat_round prefs to_eat agents
                           (alloc[agent := row[fav_obj := row ! fav_obj + to_eat]],
                            objs[fav_obj := objs ! fav_obj - to_eat])
                    else Inl IndexError)))"

text \<open>\<^verbatim>\<open>[x for x in y if not objs[x] == 0]\<close>.\<close>

fun still_left :: "rat list \<Rightarrow> nat list \<Rightarrow> error + nat list" where
  "still_left objs [] = Inr []"
| "still_left objs (x # y) =
     (case nth_res objs x of
        Inl e \<Rightarrow> Inl e
      | Inr left \<Rightarrow>
          (case still_left objs y of
             Inl e \<Rightarrow> Inl e
           | Inr rest \<Rightarrow> Inr (if left \<noteq> 0 then x # rest else rest)))"

text \<open>One pass through the body of the \<^verbatim>\<open>while\<close> loop.\<close>

definition ps_step :: "nat \<Rightarrow> ps_state \<Rightarrow> error + ps_state" where
  "ps_step n st =
     (case st of (prefs, objs, alloc) \<Rightarrow>
        (case map_res (\<lambda>l. nth_res l 0) prefs of
           Inl e \<Rightarrow> Inl e
         | Inr favs \<Rightarrow>
             (case eat_amount objs (most_common favs) 1 of
                Inl e \<Rightarrow> Inl e
              | Inr to_eat \<Rightarrow>
                  (case eat_round prefs to_eat [0..<n] (alloc, objs) of
                     Inl e \<Rightarrow> Inl e
                   | Inr (alloc', objs') \<Rightarrow>
                       (case map_res (still_left objs') prefs of
                          Inl e \<Rightarrow> Inl e
                        | Inr prefs' \<Rightarrow> Inr (prefs', objs', alloc'))))))"

text \<open>The guard \<^verbatim>\<open>len(prefs[0])\<close>; it raises when there is no agent.\<close>

definition ps_guard :: "ps_state \<Rightarrow> error + bool" where
  "ps_guard st =
     (case nth_res (fst st) 0 of Inl e \<Rightarrow> Inl e | Inr l \<Rightarrow> Inr (length l \<noteq> 0))"

text \<open>The \<^verbatim>\<open>while\<close> loop; \<open>None\<close> stands for a loop that never ends.\<close>

partial_function (option) ps_loop :: "nat \<Rightarrow> ps_state \<Rightarrow> (error + rat list list) option" where
  "ps_loop n st =
     (case ps_guard st of
        Inl e \<Rightarrow> Some (Inl e)
      | Inr more \<Rightarrow>
          if more
          then (case ps_step n st of
                  Inl e \<Rightarrow> Some (Inl e)
                | Inr st' \<Rightarrow> ps_loop n st')
          else Some (Inr (snd (snd st))))"

declare ps_loop.simps [code]

text \<open>The state before the first pass: a deep copy of the preferences, unit supplies, nothing eaten.\<close>

definition ps_init :: "nat \<Rightarrow> nat \<Rightarrow> nat list list \<Rightarrow> ps_state" where
  "ps_init n c const_prefs =
     (const_prefs, replicate (c * n) 1, replicate n (replicate (c * n) 0))"

definition run_ps :: "nat \<Rightarrow> nat \<Rightarrow> nat list list \<Rightarrow> (error + rat list list) option" where
  "run_ps n c const_prefs = ps_loop n (ps_init n c const_prefs)"

text \<open>Column sums of a matrix held as a list of rows.\<close>

definition col_sum :: "rat list list \<Rightarrow> nat \<Rightarrow> rat" where
  "col_sum alloc j = sum_list (map (\<lambda>row. row ! j) alloc)"

text \<open>The profiles \<^verbatim>\<open>run_ps\<close> is meant for: \<open>n \<ge> 1\<close> rows, each a permutation of \<open>[0, c n)\<close>.\<close>

definition valid_profile :: "nat \<Rightarrow> nat \<Rightarrow> nat list list \<Rightarrow> bool" where
  "valid_profile n c const_prefs =
     (0 < n \<and> length const_prefs = n
      \<and> list_all (\<lambda>row. mset row = mset [0..<c * n]) const_prefs)"

lemma nth_res_Inr: "i < length xs \<Longrightarrow> nth_res xs i = Inr (xs ! i)"
  by (simp add: nth_res_def)

lemma nth_res_0: "l \<noteq> [] \<Longrightarrow> nth_res l 0 = Inr (hd l)"
  by (cases l) (simp_all add: nth_res_def)

lemma sum_list_upd_add:
  fixes xs :: "rat list"
  shows "k < length xs \<Longrightarrow> sum_list (xs[k := xs ! k + d]) = sum_list xs + d"
proof (induction xs arbitrary: k)
  case Nil
  then show ?case by simp
next
  case (Cons a xs)
  then show ?case by (cases k) simp_all
qed

lemma col_sum_upd:
  assumes "a < length alloc" "f < length (alloc ! a)"
  shows "col_sum (alloc[a := (alloc ! a)[f := alloc ! a ! f + d]]) j
         = col_sum alloc j + (if j = f then d else 0)"
proof -
  let ?r = "(alloc ! a)[f := alloc ! a ! f + d]"
  have "map (\<lambda>row. row ! j) (alloc[a := ?r]) = (map (\<lambda>row. row ! j) alloc)[a := ?r ! j]"
    by (simp add: map_update)
  also have "?r ! j = (map (\<lambda>row. row ! j) alloc) ! a + (if j = f then d else 0)"
    using assms by (simp add: nth_list_update)
  finally show ?thesis
    using assms(1) sum_list_upd_add[of a "map (\<lambda>row. row ! j) alloc"]
    by (simp add: col_sum_def)
qed

lemma favs_Inr:
  assumes "\<And>l. l \<in> set prefs \<Longrightarrow> l \<noteq> []"
  shows "map_res (\<lambda>l. nth_res l 0) prefs = Inr (map hd prefs)"
  by (rule map_res_Inr) (simp add: nth_res_0 assms)

lemma eat_amount_Inr:
  assumes "\<And>p. p \<in> set cs \<Longrightarrow> fst p < length objs"
  shows "eat_amount objs cs e0
         = Inr (Min (insert e0 ((\<lambda>p. objs ! fst p / rat_of_nat (snd p)) ` set cs)))"
  using assms
proof (induction cs arbitrary: e0)
  case Nil
  then show ?case by simp
next
  case (Cons p cs)
  let ?amt = "objs ! fst p / rat_of_nat (snd p)"
  let ?S = "(\<lambda>p. objs ! fst p / rat_of_nat (snd p)) ` set cs"
  have p: "nth_res objs (fst p) = Inr (objs ! fst p)"
    using Cons.prems[of p] by (simp add: nth_res_Inr)
  have IH: "eat_amount objs cs (min e0 ?amt) = Inr (Min (insert (min e0 ?amt) ?S))"
    using Cons.IH[of "min e0 ?amt"] Cons.prems by simp
  have "(if ?amt < e0 then ?amt else e0) = min e0 ?amt" by (simp add: min_def)
  then have "eat_amount objs (p # cs) e0 = Inr (Min (insert (min e0 ?amt) ?S))"
    using p IH by (simp add: Let_def)
  also have "Min (insert (min e0 ?amt) ?S) = Min (insert e0 (insert ?amt ?S))"
  proof -
    have fin: "finite ?S" by simp
    have "Min (insert e0 (insert ?amt ?S)) = min e0 (Min (insert ?amt ?S))"
      by (rule Min_insert) (use fin in auto)
    also have "\<dots> = Min (insert (min e0 ?amt) ?S)"
    proof (cases "?S = {}")
      case True
      then show ?thesis by simp
    next
      case False
      then show ?thesis using fin by (simp add: min.assoc)
    qed
    finally show ?thesis by simp
  qed
  finally show ?case by simp
qed

lemma still_left_Inr:
  assumes "\<And>x. x \<in> set y \<Longrightarrow> x < length objs"
  shows "still_left objs y = Inr (filter (\<lambda>x. objs ! x \<noteq> 0) y)"
  using assms by (induction y) (simp_all add: nth_res_Inr)

text \<open>What one agent does in \<open>eat_round\<close> when no index is out of range.\<close>

definition eat1 :: "nat list list \<Rightarrow> rat \<Rightarrow> nat \<Rightarrow> rat list list \<times> rat list \<Rightarrow> rat list list \<times> rat list" where
  "eat1 prefs e a st =
     (let f = hd (prefs ! a); alloc = fst st; objs = snd st
      in (alloc[a := (alloc ! a)[f := alloc ! a ! f + e]], objs[f := objs ! f - e]))"

definition rect :: "nat \<Rightarrow> nat \<Rightarrow> rat list list \<Rightarrow> bool" where
  "rect n t alloc = (length alloc = n \<and> (\<forall>row \<in> set alloc. length row = t))"

lemma rect_nth: "rect n t alloc \<Longrightarrow> i < n \<Longrightarrow> length (alloc ! i) = t"
  by (simp add: rect_def)

lemma rect_upd: "rect n t alloc \<Longrightarrow> length r = t \<Longrightarrow> rect n t (alloc[a := r])"
  unfolding rect_def by (auto dest: set_update_subset_insert[THEN subsetD])

lemma eat1_shape:
  assumes "rect n t alloc" "length objs = t" "a < n"
  shows "rect n t (fst (eat1 prefs e a (alloc, objs)))"
    and "length (snd (eat1 prefs e a (alloc, objs))) = t"
  using assms by (simp_all add: eat1_def Let_def rect_upd rect_nth)

lemma fold_eat1_shape:
  assumes "rect n t (fst st)" "length (snd st) = t" "\<And>a. a \<in> set as \<Longrightarrow> a < n"
  shows "rect n t (fst (fold (eat1 prefs e) as st)) \<and> length (snd (fold (eat1 prefs e) as st)) = t"
  using assms
proof (induction as arbitrary: st)
  case Nil
  then show ?case by simp
next
  case (Cons a as)
  obtain alloc objs where st: "st = (alloc, objs)" by (cases st)
  have "rect n t (fst (eat1 prefs e a st))" "length (snd (eat1 prefs e a st)) = t"
    using eat1_shape[of n t alloc objs a prefs e] Cons.prems by (simp_all add: st)
  then show ?case using Cons.IH[of "eat1 prefs e a st"] Cons.prems(3) by simp
qed

lemma eat_round_fold:
  assumes "rect n t alloc" "length objs = t"
    and "\<And>a. a \<in> set as \<Longrightarrow> a < n \<and> a < length prefs \<and> prefs ! a \<noteq> [] \<and> hd (prefs ! a) < t"
  shows "eat_round prefs e as (alloc, objs) = Inr (fold (eat1 prefs e) as (alloc, objs))"
  using assms
proof (induction as arbitrary: alloc objs)
  case Nil
  then show ?case by simp
next
  case (Cons a as)
  have a: "a < n" "a < length prefs" "prefs ! a \<noteq> []" "hd (prefs ! a) < t"
    using Cons.prems(3)[of a] by simp_all
  let ?f = "hd (prefs ! a)"
  let ?alloc1 = "alloc[a := (alloc ! a)[?f := alloc ! a ! ?f + e]]"
  let ?objs1 = "objs[?f := objs ! ?f - e]"
  have la: "a < length alloc" "length (alloc ! a) = t"
    using Cons.prems(1) a(1) by (simp_all add: rect_def)
  have e1: "eat1 prefs e a (alloc, objs) = (?alloc1, ?objs1)"
    by (simp add: eat1_def Let_def)
  have sh: "rect n t ?alloc1" "length ?objs1 = t"
    using eat1_shape[OF Cons.prems(1,2) a(1), of prefs e] by (simp_all add: e1)
  have IH: "eat_round prefs e as (?alloc1, ?objs1) = Inr (fold (eat1 prefs e) as (?alloc1, ?objs1))"
    by (rule Cons.IH[OF sh]) (use Cons.prems(3) in simp)
  have r1: "nth_res prefs a = Inr (prefs ! a)" using a(2) by (rule nth_res_Inr)
  have r2: "nth_res (prefs ! a) 0 = Inr ?f" using a(3) by (rule nth_res_0)
  have r3: "nth_res alloc a = Inr (alloc ! a)" using la(1) by (rule nth_res_Inr)
  show ?case
    using a(4) la(2) Cons.prems(2) IH by (simp add: r1 r2 r3 e1)
qed

lemma eat1_objs:
  assumes "length objs = t" "j < t" "hd (prefs ! a) < t"
  shows "snd (eat1 prefs e a (alloc, objs)) ! j
         = objs ! j - (if j = hd (prefs ! a) then e else 0)"
  using assms by (simp add: eat1_def Let_def nth_list_update)

lemma eat1_col:
  assumes "rect n t alloc" "a < n" "hd (prefs ! a) < t"
  shows "col_sum (fst (eat1 prefs e a (alloc, objs))) j
         = col_sum alloc j + (if j = hd (prefs ! a) then e else 0)"
proof -
  have "a < length alloc" "hd (prefs ! a) < length (alloc ! a)"
    using assms by (simp_all add: rect_def)
  from col_sum_upd[OF this] show ?thesis by (simp add: eat1_def Let_def)
qed

lemma eat1_entry:
  assumes "rect n t alloc" "a < n" "hd (prefs ! a) < t" "i < n" "j < t"
  shows "fst (eat1 prefs e a (alloc, objs)) ! i ! j
         = alloc ! i ! j + (if i = a \<and> j = hd (prefs ! a) then e else 0)"
proof -
  have "a < length alloc" "i < length alloc" "hd (prefs ! a) < length (alloc ! a)"
    using assms by (simp_all add: rect_def)
  then show ?thesis by (simp add: eat1_def Let_def nth_list_update)
qed

lemma eat1_row:
  assumes "rect n t alloc" "a < n" "hd (prefs ! a) < t" "i < n"
  shows "sum_list (fst (eat1 prefs e a (alloc, objs)) ! i)
         = sum_list (alloc ! i) + (if i = a then e else 0)"
proof -
  have l: "a < length alloc" "i < length alloc" "hd (prefs ! a) < length (alloc ! a)"
    using assms by (simp_all add: rect_def)
  show ?thesis
  proof (cases "i = a")
    case True
    then show ?thesis using l sum_list_upd_add[OF l(3), of e]
      by (simp add: eat1_def Let_def)
  next
    case False
    then show ?thesis using l by (simp add: eat1_def Let_def)
  qed
qed

lemma fold_eat1_objs:
  assumes "rect n t (fst st)" "length (snd st) = t"
    and "\<And>a. a \<in> set as \<Longrightarrow> a < n \<and> hd (prefs ! a) < t" and "j < t"
  shows "snd (fold (eat1 prefs e) as st) ! j
         = snd st ! j - rat_of_nat (count_list (map (\<lambda>a. hd (prefs ! a)) as) j) * e"
  using assms(1,2,3)
proof (induction as arbitrary: st)
  case Nil
  then show ?case by simp
next
  case (Cons a as)
  obtain alloc objs where st: "st = (alloc, objs)" by (cases st)
  have a: "a < n" "hd (prefs ! a) < t" using Cons.prems(3)[of a] by simp_all
  have sh: "rect n t (fst (eat1 prefs e a st))" "length (snd (eat1 prefs e a st)) = t"
    using eat1_shape[of n t alloc objs a prefs e] Cons.prems(1,2) a(1) by (simp_all add: st)
  have "snd (fold (eat1 prefs e) as (eat1 prefs e a st)) ! j
        = snd (eat1 prefs e a st) ! j - rat_of_nat (count_list (map (\<lambda>a. hd (prefs ! a)) as) j) * e"
    by (rule Cons.IH[OF sh]) (use Cons.prems(3) in simp)
  also have "snd (eat1 prefs e a st) ! j = snd st ! j - (if j = hd (prefs ! a) then e else 0)"
    using eat1_objs[of objs t j prefs a e alloc] Cons.prems(2) assms(4) a(2) by (simp add: st)
  finally show ?case by (cases "j = hd (prefs ! a)") (simp_all add: algebra_simps)
qed

lemma fold_eat1_col:
  assumes "rect n t (fst st)" "length (snd st) = t"
    and "\<And>a. a \<in> set as \<Longrightarrow> a < n \<and> hd (prefs ! a) < t" and "j < t"
  shows "col_sum (fst (fold (eat1 prefs e) as st)) j + snd (fold (eat1 prefs e) as st) ! j
         = col_sum (fst st) j + snd st ! j"
  using assms(1,2,3)
proof (induction as arbitrary: st)
  case Nil
  then show ?case by simp
next
  case (Cons a as)
  obtain alloc objs where st: "st = (alloc, objs)" by (cases st)
  have a: "a < n" "hd (prefs ! a) < t" using Cons.prems(3)[of a] by simp_all
  have sh: "rect n t (fst (eat1 prefs e a st))" "length (snd (eat1 prefs e a st)) = t"
    using eat1_shape[of n t alloc objs a prefs e] Cons.prems(1,2) a(1) by (simp_all add: st)
  let ?st1 = "eat1 prefs e a st"
  have "col_sum (fst (fold (eat1 prefs e) as ?st1)) j + snd (fold (eat1 prefs e) as ?st1) ! j
        = col_sum (fst ?st1) j + snd ?st1 ! j"
    by (rule Cons.IH[OF sh]) (use Cons.prems(3) in simp)
  also have "snd ?st1 ! j = snd st ! j - (if j = hd (prefs ! a) then e else 0)"
    using eat1_objs[of objs t j prefs a e alloc] Cons.prems(2) assms(4) a(2) by (simp add: st)
  also have "col_sum (fst ?st1) j = col_sum (fst st) j + (if j = hd (prefs ! a) then e else 0)"
    using eat1_col[of n t alloc a prefs e objs j] Cons.prems(1) a by (simp add: st)
  finally show ?case by simp
qed

lemma fold_eat1_row:
  assumes "rect n t (fst st)" "length (snd st) = t"
    and "\<And>a. a \<in> set as \<Longrightarrow> a < n \<and> hd (prefs ! a) < t" and "i < n" and "distinct as"
  shows "sum_list (fst (fold (eat1 prefs e) as st) ! i)
         = sum_list (fst st ! i) + (if i \<in> set as then e else 0)"
  using assms(1,2,3,5)
proof (induction as arbitrary: st)
  case Nil
  then show ?case by simp
next
  case (Cons a as)
  obtain alloc objs where st: "st = (alloc, objs)" by (cases st)
  have a: "a < n" "hd (prefs ! a) < t" using Cons.prems(3)[of a] by simp_all
  have sh: "rect n t (fst (eat1 prefs e a st))" "length (snd (eat1 prefs e a st)) = t"
    using eat1_shape[of n t alloc objs a prefs e] Cons.prems(1,2) a(1) by (simp_all add: st)
  let ?st1 = "eat1 prefs e a st"
  have d: "distinct as" "a \<notin> set as" using Cons.prems(4) by simp_all
  have "sum_list (fst (fold (eat1 prefs e) as ?st1) ! i)
        = sum_list (fst ?st1 ! i) + (if i \<in> set as then e else 0)"
    by (rule Cons.IH[OF sh _ d(1)]) (use Cons.prems(3) in simp)
  also have "sum_list (fst ?st1 ! i) = sum_list (fst st ! i) + (if i = a then e else 0)"
    using eat1_row[of n t alloc a prefs i e objs] Cons.prems(1) a assms(4) by (simp add: st)
  finally show ?case using d(2) by auto
qed

lemma fold_eat1_entry:
  assumes "rect n t (fst st)" "length (snd st) = t"
    and "\<And>a. a \<in> set as \<Longrightarrow> a < n \<and> hd (prefs ! a) < t" and "i < n" "j < t" and "0 \<le> e"
  shows "fst st ! i ! j \<le> fst (fold (eat1 prefs e) as st) ! i ! j"
  using assms(1,2,3)
proof (induction as arbitrary: st)
  case Nil
  then show ?case by simp
next
  case (Cons a as)
  obtain alloc objs where st: "st = (alloc, objs)" by (cases st)
  have a: "a < n" "hd (prefs ! a) < t" using Cons.prems(3)[of a] by simp_all
  have sh: "rect n t (fst (eat1 prefs e a st))" "length (snd (eat1 prefs e a st)) = t"
    using eat1_shape[of n t alloc objs a prefs e] Cons.prems(1,2) a(1) by (simp_all add: st)
  let ?st1 = "eat1 prefs e a st"
  have "fst st ! i ! j \<le> fst ?st1 ! i ! j"
    using eat1_entry[of n t alloc a prefs i j e objs] Cons.prems(1) a assms(4,5,6) by (simp add: st)
  also have "fst ?st1 ! i ! j \<le> fst (fold (eat1 prefs e) as ?st1) ! i ! j"
    by (rule Cons.IH[OF sh]) (use Cons.prems(3) in simp)
  finally show ?case by simp
qed

text \<open>The loop invariant of \<open>run_ps\<close> for a profile \<open>cp\<close> over \<open>t\<close> columns.\<close>

definition ps_inv :: "nat \<Rightarrow> nat \<Rightarrow> nat list list \<Rightarrow> ps_state \<Rightarrow> bool" where
  "ps_inv n t cp st =
     (case st of (prefs, objs, alloc) \<Rightarrow>
        length objs = t \<and> rect n t alloc
        \<and> prefs = map (filter (\<lambda>x. objs ! x \<noteq> 0)) cp
        \<and> (\<forall>j<t. 0 \<le> objs ! j)
        \<and> (\<forall>i<n. \<forall>j<t. 0 \<le> alloc ! i ! j)
        \<and> (\<forall>j<t. col_sum alloc j + objs ! j = 1)
        \<and> (\<forall>i<n. sum_list (alloc ! i) = sum_list (alloc ! 0)))"

definition live :: "nat \<Rightarrow> rat list \<Rightarrow> nat set" where
  "live t objs = {j. j < t \<and> objs ! j \<noteq> 0}"

lemma valid_profileD:
  assumes "valid_profile n c cp"
  shows "0 < n" "length cp = n" "\<And>row. row \<in> set cp \<Longrightarrow> set row = {0..<c * n}"
    "\<And>row. row \<in> set cp \<Longrightarrow> distinct row"
proof -
  show "0 < n" "length cp = n" using assms by (simp_all add: valid_profile_def)
  fix row assume "row \<in> set cp"
  then have m: "mset row = mset [0..<c * n]"
    using assms by (simp add: valid_profile_def list_all_iff)
  show "set row = {0..<c * n}" using m by (metis set_mset_mset set_upt)
  show "distinct row" using m by (metis distinct_upt mset_eq_imp_distinct_iff)
qed

lemma col_sum_nonneg:
  assumes "rect n t alloc" "\<forall>i<n. \<forall>j<t. 0 \<le> alloc ! i ! j" "j < t"
  shows "0 \<le> col_sum alloc j"
proof -
  have "\<And>x. x \<in> set (map (\<lambda>row. row ! j) alloc) \<Longrightarrow> 0 \<le> x"
  proof -
    fix x assume "x \<in> set (map (\<lambda>row. row ! j) alloc)"
    then obtain i where "i < length alloc" "x = alloc ! i ! j"
      by (auto simp: in_set_conv_nth)
    then show "0 \<le> x" using assms by (simp add: rect_def)
  qed
  then show ?thesis unfolding col_sum_def by (rule sum_list_nonneg)
qed

lemma count_list_pos: "x \<in> set xs \<Longrightarrow> 0 < count_list xs x"
  by (induction xs) auto

lemma map_hd_nth: "map (\<lambda>a. hd (prefs ! a)) [0..<length prefs] = map hd prefs"
  by (rule nth_equalityI) simp_all

lemma most_common_image:
  "(\<lambda>p. objs ! fst p / rat_of_nat (snd p)) ` set (most_common favs)
   = (\<lambda>x. objs ! x / rat_of_nat (count_list favs x)) ` set favs"
  by (auto simp: most_common_def image_iff)

text \<open>The amount eaten in a round: positive, within every favourite's fair share, and equal to one of them.\<close>

lemma to_eat_props:
  assumes ne: "favs \<noteq> []"
    and pos0: "\<forall>x \<in> set favs. 0 < objs ! x \<and> objs ! x \<le> 1"
  defines "e \<equiv> Min (insert 1 ((\<lambda>x. objs ! x / rat_of_nat (count_list favs x)) ` set favs))"
  shows "0 < e"
    and "\<And>x. x \<in> set favs \<Longrightarrow> rat_of_nat (count_list favs x) * e \<le> objs ! x"
    and "\<exists>x \<in> set favs. rat_of_nat (count_list favs x) * e = objs ! x"
proof -
  let ?g = "\<lambda>x. objs ! x / rat_of_nat (count_list favs x)"
  let ?A = "?g ` set favs"
  have pos: "0 < objs ! x \<and> objs ! x \<le> 1" if "x \<in> set favs" for x
    using pos0 that by blast
  have fin: "finite (insert 1 ?A)" by simp
  have cpos: "0 < rat_of_nat (count_list favs x)" if "x \<in> set favs" for x
    using count_list_pos[OF that] by simp
  have c1: "1 \<le> rat_of_nat (count_list favs x)" if "x \<in> set favs" for x
    using count_list_pos[OF that] by (simp add: Suc_le_eq)
  have gpos: "0 < ?g x" if "x \<in> set favs" for x
    using pos[OF that] cpos[OF that] by simp
  have gle: "?g x \<le> 1" if "x \<in> set favs" for x
  proof -
    have "objs ! x \<le> 1 * rat_of_nat (count_list favs x)"
      using pos[OF that] c1[OF that] by simp
    then show ?thesis using cpos[OF that] by (simp add: pos_divide_le_eq)
  qed
  have "e \<in> insert 1 ?A" unfolding e_def by (rule Min_in[OF fin]) simp
  then show "0 < e" using gpos by auto
  show "rat_of_nat (count_list favs x) * e \<le> objs ! x" if "x \<in> set favs" for x
  proof -
    have "e \<le> ?g x" unfolding e_def by (rule Min_le[OF fin]) (use that in simp)
    then have "e * rat_of_nat (count_list favs x) \<le> objs ! x"
      using cpos[OF that] by (simp add: pos_le_divide_eq)
    then show ?thesis by (simp add: mult.commute)
  qed
  have Ane: "?A \<noteq> {}" using ne by simp
  have "Min ?A \<in> ?A" by (rule Min_in) (use Ane in simp_all)
  then obtain x where x: "x \<in> set favs" "Min ?A = ?g x" by auto
  have "Min ?A \<le> 1" using x gle by simp
  moreover have "Min (insert 1 ?A) = min 1 (Min ?A)"
    by (rule Min_insert) (use Ane in simp_all)
  ultimately have "e = Min ?A"
    unfolding e_def by (simp only: min_absorb2)
  then have "e = ?g x" using x by simp
  then have "rat_of_nat (count_list favs x) * e = objs ! x"
    using cpos[OF x(1)] by simp
  then show "\<exists>x \<in> set favs. rat_of_nat (count_list favs x) * e = objs ! x"
    using x(1) by blast
qed

lemma sum_rows_cols:
  assumes "rect n t alloc"
  shows "(\<Sum>i<n. sum_list (alloc ! i)) = (\<Sum>j<t. col_sum alloc j)"
proof -
  have r: "sum_list (alloc ! i) = (\<Sum>j<t. alloc ! i ! j)" if "i < n" for i
    using rect_nth[OF assms that] by (simp add: sum_list_sum_nth atLeast0LessThan)
  have c: "col_sum alloc j = (\<Sum>i<n. alloc ! i ! j)" for j
    using assms by (simp add: col_sum_def sum_list_sum_nth atLeast0LessThan rect_def)
  have "(\<Sum>i<n. sum_list (alloc ! i)) = (\<Sum>i<n. \<Sum>j<t. alloc ! i ! j)"
    by (rule sum.cong) (simp_all add: r)
  also have "\<dots> = (\<Sum>j<t. \<Sum>i<n. alloc ! i ! j)" by (rule sum.swap)
  also have "\<dots> = (\<Sum>j<t. col_sum alloc j)" by (simp add: c)
  finally show ?thesis .
qed

lemma ps_invD:
  assumes "ps_inv n t cp (prefs, objs, alloc)"
  shows "length objs = t" "rect n t alloc"
    "prefs = map (filter (\<lambda>x. objs ! x \<noteq> 0)) cp"
    "\<And>j. j < t \<Longrightarrow> 0 \<le> objs ! j"
    "\<forall>i<n. \<forall>j<t. 0 \<le> alloc ! i ! j"
    "\<And>j. j < t \<Longrightarrow> col_sum alloc j + objs ! j = 1"
    "\<And>i. i < n \<Longrightarrow> sum_list (alloc ! i) = sum_list (alloc ! 0)"
  using assms unfolding ps_inv_def prod.case by blast+

lemma ps_invI:
  assumes "length objs = t" "rect n t alloc"
    "prefs = map (filter (\<lambda>x. objs ! x \<noteq> 0)) cp"
    "\<And>j. j < t \<Longrightarrow> 0 \<le> objs ! j"
    "\<forall>i<n. \<forall>j<t. 0 \<le> alloc ! i ! j"
    "\<And>j. j < t \<Longrightarrow> col_sum alloc j + objs ! j = 1"
    "\<And>i. i < n \<Longrightarrow> sum_list (alloc ! i) = sum_list (alloc ! 0)"
  shows "ps_inv n t cp (prefs, objs, alloc)"
  using assms unfolding ps_inv_def prod.case by blast

lemma ps_step_inv:
  assumes v: "valid_profile n c cp"
    and inv: "ps_inv n (c * n) cp (prefs, objs, alloc)"
    and g: "prefs ! 0 \<noteq> []"
  shows "\<exists>prefs' objs' alloc'.
      ps_step n (prefs, objs, alloc) = Inr (prefs', objs', alloc')
      \<and> ps_inv n (c * n) cp (prefs', objs', alloc')
      \<and> live (c * n) objs' \<subset> live (c * n) objs
      \<and> (\<exists>a<n. objs ! hd (prefs ! a) \<noteq> 0 \<and> objs' ! hd (prefs ! a) = 0)"
proof -
  define t where "t = c * n"
  define P where "P = (\<lambda>x. objs ! x \<noteq> 0)"
  note vd = valid_profileD[OF v, folded t_def]
  have lo: "length objs = t" and re: "rect n t alloc"
    and pr: "prefs = map (filter P) cp"
    and on: "\<And>j. j < t \<Longrightarrow> 0 \<le> objs ! j"
    and an: "\<forall>i<n. \<forall>j<t. 0 \<le> alloc ! i ! j"
    and cs: "\<And>j. j < t \<Longrightarrow> col_sum alloc j + objs ! j = 1"
    and rs: "\<And>i. i < n \<Longrightarrow> sum_list (alloc ! i) = sum_list (alloc ! 0)"
    using ps_invD[OF inv] unfolding t_def P_def by blast+
  have lp: "length prefs = n" using vd(2) by (simp add: pr)
  have "cp ! 0 \<in> set cp" using vd(1,2) by simp
  moreover have "filter P (cp ! 0) \<noteq> []" using g vd(1,2) by (simp add: pr)
  ultimately obtain x0 where x0: "x0 < t" "P x0"
    using vd(3)[of "cp ! 0"] by (fastforce simp: filter_empty_conv)
  have rows: "l \<noteq> [] \<and> hd l < t \<and> P (hd l) \<and> (\<forall>x \<in> set l. x < t)" if "l \<in> set prefs" for l
  proof -
    from that obtain r where r: "r \<in> set cp" "l = filter P r" by (auto simp: pr)
    have "x0 \<in> set l" using vd(3)[OF r(1)] x0 by (simp add: r(2))
    then have ne: "l \<noteq> []" by auto
    then have "hd l \<in> set l" by simp
    then have "P (hd l)" "hd l \<in> set r" by (simp_all add: r(2))
    moreover have "\<forall>x \<in> set l. x < t" using vd(3)[OF r(1)] by (auto simp: r(2))
    ultimately show ?thesis using ne vd(3)[OF r(1)] by auto
  qed
  define favs where "favs = map hd prefs"
  have fne: "favs \<noteq> []" using lp vd(1) by (auto simp: favs_def)
  have fav: "x < t \<and> P x" if "x \<in> set favs" for x
    using that rows by (auto simp: favs_def)
  have fpos: "0 < objs ! x \<and> objs ! x \<le> 1" if "x \<in> set favs" for x
  proof -
    have x: "x < t" "objs ! x \<noteq> 0" using fav[OF that] by (simp_all add: P_def)
    have "0 \<le> col_sum alloc x" by (rule col_sum_nonneg[OF re an x(1)])
    then show ?thesis using cs[OF x(1)] on[OF x(1)] x(2) by simp
  qed
  define e where "e = Min (insert 1 ((\<lambda>x. objs ! x / rat_of_nat (count_list favs x)) ` set favs))"
  have fpos': "\<forall>x \<in> set favs. 0 < objs ! x \<and> objs ! x \<le> 1" using fpos by blast
  note ep = to_eat_props[OF fne fpos', folded e_def]
  have s1: "map_res (\<lambda>l. nth_res l 0) prefs = Inr favs"
    unfolding favs_def by (rule favs_Inr) (use rows in blast)
  have s2: "eat_amount objs (most_common favs) 1 = Inr e"
  proof -
    have "fst p < length objs" if "p \<in> set (most_common favs)" for p
      using that fav lo by (auto simp: most_common_def)
    from eat_amount_Inr[OF this] show ?thesis
      by (simp only: most_common_image e_def)
  qed
  have agents: "a < n \<and> a < length prefs \<and> prefs ! a \<noteq> [] \<and> hd (prefs ! a) < t"
    if "a \<in> set [0..<n]" for a
    using that rows[of "prefs ! a"] lp by simp
  have agents': "a < n \<and> hd (prefs ! a) < t" if "a \<in> set [0..<n]" for a
    using agents[OF that] by simp
  define st1 where "st1 = fold (eat1 prefs e) [0..<n] (alloc, objs)"
  define alloc' where "alloc' = fst st1"
  define objs' where "objs' = snd st1"
  have st1: "st1 = (alloc', objs')" by (simp add: alloc'_def objs'_def)
  have s3: "eat_round prefs e [0..<n] (alloc, objs) = Inr (alloc', objs')"
    using eat_round_fold[where as="[0..<n]" and prefs=prefs and e=e, OF re lo agents] by (simp add: st1_def[symmetric] st1)
  have re0: "rect n t (fst (alloc, objs))" and lo0: "length (snd (alloc, objs)) = t"
    using re lo by simp_all
  have sh: "rect n t alloc'" "length objs' = t"
    using fold_eat1_shape[where as="[0..<n]" and prefs=prefs and e=e, OF re0 lo0]
    by (simp_all add: alloc'_def objs'_def st1_def)
  have s4: "map_res (still_left objs') prefs = Inr (map (filter (\<lambda>x. objs' ! x \<noteq> 0)) prefs)"
  proof (rule map_res_Inr)
    fix l assume "l \<in> set prefs"
    then have "\<And>x. x \<in> set l \<Longrightarrow> x < length objs'" using rows sh(2) by auto
    then show "still_left objs' l = Inr (filter (\<lambda>x. objs' ! x \<noteq> 0) l)"
      by (rule still_left_Inr)
  qed
  define prefs' where "prefs' = map (filter (\<lambda>x. objs' ! x \<noteq> 0)) prefs"
  have step: "ps_step n (prefs, objs, alloc) = Inr (prefs', objs', alloc')"
    by (simp add: ps_step_def s1 s2 s3 s4 prefs'_def)
  have o': "objs' ! j = objs ! j - rat_of_nat (count_list favs j) * e" if "j < t" for j
    using fold_eat1_objs[where as="[0..<n]" and prefs=prefs and e=e, OF re0 lo0 agents' that] map_hd_nth[of prefs]
    by (simp add: objs'_def st1_def favs_def lp)
  have o'same: "objs' ! j = objs ! j" if "j < t" "j \<notin> set favs" for j
    using o'[OF that(1)] that(2) by (simp add: count_list_0_iff)
  have on': "0 \<le> objs' ! j" if "j < t" for j
  proof (cases "j \<in> set favs")
    case True
    then show ?thesis using ep(2)[OF True] o'[OF that] by simp
  next
    case False
    then show ?thesis using o'same[OF that False] on[OF that] by simp
  qed
  have PP: "objs ! j \<noteq> 0" if "j < t" "objs' ! j \<noteq> 0" for j
  proof (cases "j \<in> set favs")
    case True
    then show ?thesis using fav[OF True] by (simp add: P_def)
  next
    case False
    then show ?thesis using o'same[OF that(1) False] that(2) by simp
  qed
  have pr': "prefs' = map (filter (\<lambda>x. objs' ! x \<noteq> 0)) cp"
  proof -
    have "filter (\<lambda>x. objs' ! x \<noteq> 0) (filter P r) = filter (\<lambda>x. objs' ! x \<noteq> 0) r"
      if "r \<in> set cp" for r
      unfolding filter_filter
      by (rule filter_cong) (use vd(3)[OF that] PP in \<open>auto simp: P_def\<close>)
    then show ?thesis by (simp add: prefs'_def pr)
  qed
  have an': "\<forall>i<n. \<forall>j<t. 0 \<le> alloc' ! i ! j"
  proof (intro allI impI)
    fix i j assume ij: "i < n" "j < t"
    have "alloc ! i ! j \<le> alloc' ! i ! j"
      using fold_eat1_entry[where as="[0..<n]" and prefs=prefs and e=e, OF re0 lo0 agents' ij] ep(1)
      by (simp add: alloc'_def st1_def)
    then show "0 \<le> alloc' ! i ! j" using an ij by force
  qed
  have cs': "col_sum alloc' j + objs' ! j = 1" if "j < t" for j
    using fold_eat1_col[where as="[0..<n]" and prefs=prefs and e=e, OF re0 lo0 agents' that] cs[OF that]
    by (simp add: alloc'_def objs'_def st1_def)
  have row': "sum_list (alloc' ! i) = sum_list (alloc ! i) + e" if "i < n" for i
    using fold_eat1_row[where as="[0..<n]" and prefs=prefs and e=e, OF re0 lo0 agents' that] that
    by (simp add: alloc'_def st1_def)
  have rs': "sum_list (alloc' ! i) = sum_list (alloc' ! 0)" if "i < n" for i
    using row'[OF that] row'[OF vd(1)] rs[OF that] by linarith
  have inv': "ps_inv n (c * n) cp (prefs', objs', alloc')"
    unfolding t_def[symmetric] by (rule ps_invI[OF sh(2,1) pr' on' an' cs' rs'])
  obtain xs where xs: "xs \<in> set favs" "rat_of_nat (count_list favs xs) * e = objs ! xs"
    using ep(3) by blast
  have xs0: "xs < t" "objs ! xs \<noteq> 0" "objs' ! xs = 0"
    using fav[OF xs(1)] o'[of xs] xs(2) by (simp_all add: P_def)
  have sub: "live t objs' \<subset> live t objs"
  proof
    show "live t objs' \<subseteq> live t objs" using PP by (auto simp: live_def)
    have "xs \<in> live t objs" "xs \<notin> live t objs'" using xs0 by (simp_all add: live_def)
    then show "live t objs' \<noteq> live t objs" by blast
  qed
  obtain a where a: "a < n" "xs = hd (prefs ! a)"
    using xs(1) lp by (auto simp: favs_def in_set_conv_nth)
  have "\<exists>a<n. objs ! hd (prefs ! a) \<noteq> 0 \<and> objs' ! hd (prefs ! a) = 0"
    using a xs0 by blast
  with step inv' sub show ?thesis unfolding t_def by blast
qed

lemma finite_live: "finite (live t objs)"
  by (simp add: live_def)

lemma ps_guard_inv:
  assumes v: "valid_profile n c cp" and inv: "ps_inv n (c * n) cp (prefs, objs, alloc)"
  shows "ps_guard (prefs, objs, alloc) = Inr (prefs ! 0 \<noteq> [])"
proof -
  have "length prefs = n" using ps_invD(3)[OF inv] valid_profileD(2)[OF v] by simp
  then have "nth_res prefs 0 = Inr (prefs ! 0)" using valid_profileD(1)[OF v] by (simp add: nth_res_Inr)
  then show ?thesis by (simp add: ps_guard_def)
qed

lemma ps_exit_props:
  assumes v: "valid_profile n c cp"
    and inv: "ps_inv n (c * n) cp (prefs, objs, alloc)"
    and g: "prefs ! 0 = []"
  shows "\<forall>j<c * n. col_sum alloc j = 1" and "\<forall>i<n. sum_list (alloc ! i) = rat_of_nat c"
proof -
  define t where "t = c * n"
  note vd = valid_profileD[OF v, folded t_def]
  note iv = ps_invD[OF inv, folded t_def]
  have "cp ! 0 \<in> set cp" using vd(1,2) by simp
  then have s0: "set (cp ! 0) = {0..<t}" by (rule vd(3))
  have "filter (\<lambda>x. objs ! x \<noteq> 0) (cp ! 0) = []"
    using g vd(1,2) by (simp add: iv(3))
  then have z: "objs ! j = 0" if "j < t" for j
    using that s0 by (auto simp: filter_empty_conv)
  have col: "col_sum alloc j = 1" if "j < t" for j
    using iv(6)[OF that] z[OF that] by simp
  then show "\<forall>j<c * n. col_sum alloc j = 1" by (simp add: t_def)
  have "(\<Sum>i<n. sum_list (alloc ! i)) = (\<Sum>j<t. col_sum alloc j)"
    by (rule sum_rows_cols[OF iv(2)])
  also have "\<dots> = (\<Sum>j<t. 1)" by (rule sum.cong) (simp_all add: col)
  also have "\<dots> = rat_of_nat t" by simp
  finally have tot: "(\<Sum>i<n. sum_list (alloc ! i)) = rat_of_nat t" .
  have "(\<Sum>i<n. sum_list (alloc ! i)) = (\<Sum>i<n. sum_list (alloc ! 0))"
  proof (rule sum.cong)
    fix x assume "x \<in> {..<n}"
    then have "x < n" by simp
    then show "sum_list (alloc ! x) = sum_list (alloc ! 0)" by (rule iv(7))
  qed (rule refl)
  also have "\<dots> = rat_of_nat n * sum_list (alloc ! 0)" by simp
  finally have a: "(\<Sum>i<n. sum_list (alloc ! i)) = rat_of_nat n * sum_list (alloc ! 0)" .
  have "rat_of_nat n * sum_list (alloc ! 0) = rat_of_nat t"
    by (rule trans[OF a[symmetric] tot])
  then have "rat_of_nat n * sum_list (alloc ! 0) = rat_of_nat n * rat_of_nat c"
    by (simp only: t_def of_nat_mult mult.commute)
  then have s0c: "sum_list (alloc ! 0) = rat_of_nat c" using vd(1) by simp
  show "\<forall>i<n. sum_list (alloc ! i) = rat_of_nat c"
  proof (intro allI impI)
    fix i assume "i < n"
    from iv(7)[OF this] s0c show "sum_list (alloc ! i) = rat_of_nat c" by (rule trans)
  qed
qed

lemma ps_loop_result:
  assumes v: "valid_profile n c cp" and inv: "ps_inv n (c * n) cp st"
  shows "\<exists>r. ps_loop n st = Some (Inr r) \<and> rect n (c * n) r
            \<and> (\<forall>i<n. \<forall>j<c * n. 0 \<le> r ! i ! j)
            \<and> (\<forall>j<c * n. col_sum r j = 1)
            \<and> (\<forall>i<n. sum_list (r ! i) = rat_of_nat c)"
  using inv
proof (induction "card (live (c * n) (fst (snd st)))" arbitrary: st rule: less_induct)
  case less
  obtain prefs objs alloc where st: "st = (prefs, objs, alloc)" by (cases st)
  have inv: "ps_inv n (c * n) cp (prefs, objs, alloc)" using less.prems by (simp add: st)
  have gd: "ps_guard (prefs, objs, alloc) = Inr (prefs ! 0 \<noteq> [])"
    by (rule ps_guard_inv[OF v inv])
  show ?case
  proof (cases "prefs ! 0 = []")
    case True
    have "ps_loop n st = Some (Inr alloc)"
      unfolding st by (subst ps_loop.simps) (simp add: gd True)
    moreover note ps_exit_props[OF v inv True] ps_invD(2,5)[OF inv]
    ultimately show ?thesis by blast
  next
    case False
    from ps_step_inv[OF v inv False] obtain prefs' objs' alloc' where
      s: "ps_step n (prefs, objs, alloc) = Inr (prefs', objs', alloc')"
      and i': "ps_inv n (c * n) cp (prefs', objs', alloc')"
      and l: "live (c * n) objs' \<subset> live (c * n) objs"
      by blast
    have "card (live (c * n) objs') < card (live (c * n) objs)"
      by (rule psubset_card_mono[OF finite_live l])
    then have "card (live (c * n) (fst (snd (prefs', objs', alloc')))) < card (live (c * n) (fst (snd st)))"
      by (simp add: st)
    from less.hyps[OF this i'] obtain r where
      r: "ps_loop n (prefs', objs', alloc') = Some (Inr r)" "rect n (c * n) r"
         "\<forall>i<n. \<forall>j<c * n. 0 \<le> r ! i ! j" "\<forall>j<c * n. col_sum r j = 1"
         "\<forall>i<n. sum_list (r ! i) = rat_of_nat c"
      by blast
    have "ps_loop n st = ps_loop n (prefs', objs', alloc')"
      unfolding st by (subst ps_loop.simps) (simp add: gd False s)
    with r show ?thesis by simp
  qed
qed

lemma ps_init_inv:
  assumes v: "valid_profile n c cp"
  shows "ps_inv n (c * n) cp (ps_init n c cp)"
proof -
  define t where "t = c * n"
  note vd = valid_profileD[OF v, folded t_def]
  have z: "col_sum (replicate n (replicate t 0)) j + 1 = 1" if "j < t" for j
    using that by (simp add: col_sum_def sum_list_replicate)
  have "filter (\<lambda>x. replicate t (1::rat) ! x \<noteq> 0) r = r" if "r \<in> set cp" for r
    using vd(3)[OF that] by (simp add: filter_id_conv)
  then have p: "cp = map (filter (\<lambda>x. replicate t (1::rat) ! x \<noteq> 0)) cp"
    by (simp add: map_idI)
  have "ps_inv n t cp (cp, replicate t 1, replicate n (replicate t 0))"
    by (rule ps_invI) (use p z in \<open>simp_all add: rect_def\<close>)
  then show ?thesis by (simp add: ps_init_def t_def)
qed

lemma run_ps_result:
  assumes v: "valid_profile n c cp"
  shows "\<exists>r. run_ps n c cp = Some (Inr r) \<and> rect n (c * n) r
            \<and> (\<forall>i<n. \<forall>j<c * n. 0 \<le> r ! i ! j)
            \<and> (\<forall>j<c * n. col_sum r j = 1)
            \<and> (\<forall>i<n. sum_list (r ! i) = rat_of_nat c)"
  unfolding run_ps_def by (rule ps_loop_result[OF v ps_init_inv[OF v]])

text \<open>
  Claim C3. For every profile of \<open>n \<ge> 1\<close> rows that are permutations of \<open>[0, c n)\<close>,
  \<open>run_ps\<close> returns (the loop ends and nothing is raised) an \<open>n\<close> by \<open>c n\<close> allocation in
  which every row sums to exactly \<open>c\<close> and every column sums to exactly 1.
\<close>

theorem run_ps_row_col_sums:
  assumes "valid_profile n c const_prefs"
  shows "\<exists>alloc. run_ps n c const_prefs = Some (Inr alloc) \<and> length alloc = n
           \<and> (\<forall>i<n. length (alloc ! i) = c * n \<and> sum_list (alloc ! i) = rat_of_nat c)
           \<and> (\<forall>j<c * n. col_sum alloc j = 1)"
proof -
  from run_ps_result[OF assms] obtain r where
    r: "run_ps n c const_prefs = Some (Inr r)" "rect n (c * n) r"
       "\<forall>j<c * n. col_sum r j = 1" "\<forall>i<n. sum_list (r ! i) = rat_of_nat c"
    by blast
  have "length r = n" "\<forall>i<n. length (r ! i) = c * n"
    using r(2) by (simp_all add: rect_def)
  with r show ?thesis by blast
qed

theorem run_ps_row_col_sums_witness:
  "valid_profile 3 2 [[0, 1, 2, 3, 4, 5], [0, 2, 1, 3, 4, 5], [3, 2, 1, 0, 4, 5]]
   \<and> (\<exists>alloc. run_ps 3 2 [[0, 1, 2, 3, 4, 5], [0, 2, 1, 3, 4, 5], [3, 2, 1, 0, 4, 5]]
                 = Some (Inr alloc)
        \<and> sum_list (alloc ! 0) = 2 \<and> sum_list (alloc ! 1) = 2 \<and> sum_list (alloc ! 2) = 2
        \<and> col_sum alloc 0 = 1 \<and> col_sum alloc 5 = 1)"
proof -
  have v: "valid_profile 3 2 [[0, 1, 2, 3, 4, 5], [0, 2, 1, 3, 4, 5], [3, 2, 1, 0, 4, 5]]"
    by code_simp
  from run_ps_row_col_sums[OF v] v show ?thesis by auto
qed

text \<open>
  Claim C2 as stated fails: a single agent with two columns (\<open>c = 2\<close>) eats both, and its
  row sums to 2.
\<close>

theorem run_ps_row_sum_two:
  "valid_profile 1 2 [[0, 1]] \<and> run_ps 1 2 [[0, 1]] = Some (Inr [[1, 1]])
   \<and> sum_list ([[1, 1 :: rat]] ! 0) \<noteq> 1"
  by code_simp

text \<open>
  Claim C2, as the code has it. For every valid profile the allocation returned by
  \<open>run_ps\<close> has every row summing to exactly \<open>c\<close> (which is 1 only when \<open>c = 1\<close>) and every
  column summing to at most 1.
\<close>

theorem run_ps_rows_c_cols_le_1:
  assumes "valid_profile n c const_prefs"
  shows "\<exists>alloc. run_ps n c const_prefs = Some (Inr alloc)
           \<and> (\<forall>i<n. sum_list (alloc ! i) = rat_of_nat c)
           \<and> (\<forall>j<c * n. col_sum alloc j \<le> 1)"
proof -
  from run_ps_result[OF assms] obtain r where
    r: "run_ps n c const_prefs = Some (Inr r)"
       "\<forall>j<c * n. col_sum r j = 1" "\<forall>i<n. sum_list (r ! i) = rat_of_nat c"
    by blast
  from r(2) have "\<forall>j<c * n. col_sum r j \<le> 1" by simp
  with r(1,3) show ?thesis by blast
qed

theorem run_ps_rows_c_cols_le_1_witness:
  "valid_profile 2 1 [[0, 1], [0, 1]]
   \<and> (\<exists>alloc. run_ps 2 1 [[0, 1], [0, 1]] = Some (Inr alloc)
        \<and> sum_list (alloc ! 0) = 1 \<and> sum_list (alloc ! 1) = 1
        \<and> col_sum alloc 0 \<le> 1 \<and> col_sum alloc 1 \<le> 1)"
proof -
  have v: "valid_profile 2 1 [[0, 1], [0, 1]]" by code_simp
  from run_ps_rows_c_cols_le_1[OF v] v show ?thesis by auto
qed

section \<open>representative\<close>

text \<open>A \<^verbatim>\<open>for\<close> loop whose body may raise: the first failure ends it.\<close>

fun fold_res :: "('a \<Rightarrow> 's \<Rightarrow> error + 's) \<Rightarrow> 'a list \<Rightarrow> 's \<Rightarrow> error + 's" where
  "fold_res f [] s = Inr s"
| "fold_res f (x # xs) s = (case f x s of Inl e \<Rightarrow> Inl e | Inr s' \<Rightarrow> fold_res f xs s')"

text \<open>
  The loop \<^verbatim>\<open>while amt > 0\<close> of one representative, on the agent's own preference list
  \<^verbatim>\<open>prefs[agent]\<close> and allocation row \<^verbatim>\<open>alloc[agent]\<close>, both of which it changes in place:
  \<^verbatim>\<open>pop(0)\<close> drops the head of the caller's list.
\<close>

function rep_eat ::
    "nat list \<Rightarrow> rat list \<Rightarrow> rat list \<Rightarrow> rat \<Rightarrow> error + (nat list \<times> rat list \<times> rat list)" where
  "rep_eat pref row suballoc amt =
     (if amt > 0
      then (case nth_res pref 0 of
              Inl e \<Rightarrow> Inl e
            | Inr cur_obj \<Rightarrow>
                (case nth_res row cur_obj of
                   Inl e \<Rightarrow> Inl e
                 | Inr val0 \<Rightarrow>
                     if cur_obj < length suballoc
                     then (if amt < val0
                           then rep_eat pref (row[cur_obj := row ! cur_obj - amt])
                                  (suballoc[cur_obj := amt]) (amt - amt)
                           else rep_eat (tl pref) (row[cur_obj := row ! cur_obj - val0])
                                  (suballoc[cur_obj := val0]) (amt - val0))
                     else Inl IndexError))
      else Inr (pref, row, suballoc))"
  by pat_completeness auto
termination
  by (relation "measure (\<lambda>(pref, row, suballoc, amt). 2 * length pref + (if amt > 0 then 1 else 0))")
    (auto simp: nth_res_def split: if_splits)

declare rep_eat.simps [simp del]

text \<open>
  The body of \<^verbatim>\<open>for rep in range(c)\<close>. The state is the caller's \<^verbatim>\<open>prefs\<close> and \<^verbatim>\<open>alloc\<close>,
  which the function mutates, and the list \<^verbatim>\<open>res_alloc\<close> it builds.
\<close>

type_synonym rep_state = "nat list list \<times> rat list list \<times> rat list list"

definition rep_one :: "nat \<Rightarrow> nat \<Rightarrow> nat \<Rightarrow> rep_state \<Rightarrow> error + rep_state" where
  "rep_one n c agent st =
     (case st of (prefs, alloc, res_alloc) \<Rightarrow>
        (case nth_res prefs agent of
           Inl e \<Rightarrow> Inl e
         | Inr pref \<Rightarrow>
             (case nth_res alloc agent of
                Inl e \<Rightarrow> Inl e
              | Inr row \<Rightarrow>
                  (case rep_eat pref row (replicate (c * n) 0) 1 of
                     Inl e \<Rightarrow> Inl e
                   | Inr (pref', row', suballoc) \<Rightarrow>
                       Inr (prefs[agent := pref'], alloc[agent := row'],
                            res_alloc @ [suballoc])))))"

text \<open>
  \<^verbatim>\<open>representative(prefs, alloc, n, c)\<close>. The result holds what the caller's \<^verbatim>\<open>prefs\<close> and
  \<^verbatim>\<open>alloc\<close> have become, and the returned \<^verbatim>\<open>res_alloc\<close>.
\<close>

definition representative ::
    "nat list list \<Rightarrow> rat list list \<Rightarrow> nat \<Rightarrow> nat \<Rightarrow> error + rep_state" where
  "representative prefs alloc n c =
     fold_res (\<lambda>agent. fold_res (\<lambda>rep. rep_one n c agent) [0..<c]) [0..<n] (prefs, alloc, [])"

text \<open>An agent's remaining preference list and allocation row fit together.\<close>

definition row_ok :: "nat \<Rightarrow> nat list \<Rightarrow> rat list \<Rightarrow> bool" where
  "row_ok t pref row =
     (distinct pref \<and> set pref \<subseteq> {..<t} \<and> length row = t
      \<and> (\<forall>j<t. 0 \<le> row ! j) \<and> (\<forall>j<t. j \<notin> set pref \<longrightarrow> row ! j = 0))"

lemma sum_list_upd_sub:
  fixes xs :: "rat list"
  shows "k < length xs \<Longrightarrow> sum_list (xs[k := xs ! k - d]) = sum_list xs - d"
  using sum_list_upd_add[of k xs "- d"] by simp

lemma sum_list_upd_zero:
  fixes xs :: "rat list"
  shows "k < length xs \<Longrightarrow> xs ! k = 0 \<Longrightarrow> sum_list (xs[k := d]) = sum_list xs + d"
  using sum_list_upd_add[of k xs d] by simp

lemma sum_list_all_zero:
  fixes xs :: "rat list"
  assumes "\<forall>j<length xs. xs ! j = 0"
  shows "sum_list xs = 0"
proof -
  have "\<And>x. x \<in> set xs \<Longrightarrow> x = 0" using assms by (auto simp: in_set_conv_nth)
  then show ?thesis by (induction xs) auto
qed

lemma sum_list_zero_all:
  fixes xs :: "rat list"
  assumes "\<forall>j<length xs. 0 \<le> xs ! j" "sum_list xs = 0" "j < length xs"
  shows "xs ! j = 0"
proof -
  have nn: "\<And>x. x \<in> set xs \<Longrightarrow> 0 \<le> x" using assms(1) by (auto simp: in_set_conv_nth)
  then have "\<forall>x \<in> set xs. x = 0" using assms(2) by (simp add: sum_list_nonneg_eq_0_iff)
  then show ?thesis using assms(3) by simp
qed

lemma rep_eat_spec:
  assumes "row_ok t pref row" "length sub = t" "0 \<le> amt" "amt \<le> sum_list row"
    and "amt > 0 \<longrightarrow> (\<forall>j \<in> set pref. sub ! j = 0)" "\<forall>j<t. 0 \<le> sub ! j"
  shows "\<exists>pref' row' sub'. rep_eat pref row sub amt = Inr (pref', row', sub')
           \<and> row_ok t pref' row' \<and> length sub' = t
           \<and> (\<forall>j<t. row' ! j + sub' ! j = row ! j + sub ! j)
           \<and> sum_list sub' = sum_list sub + amt
           \<and> sum_list row' = sum_list row - amt
           \<and> (\<forall>j<t. 0 \<le> sub' ! j)"
  using assms
proof (induction pref row sub amt rule: rep_eat.induct)
  case (1 pref row sub amt)
  note ok = \<open>row_ok t pref row\<close>
  have d: "distinct pref" and ss: "set pref \<subseteq> {..<t}" and lr: "length row = t"
    and rn: "\<And>j. j < t \<Longrightarrow> 0 \<le> row ! j"
    and rz: "\<And>j. j < t \<Longrightarrow> j \<notin> set pref \<Longrightarrow> row ! j = 0"
    using ok unfolding row_ok_def by blast+
  note ls = \<open>length sub = t\<close>
  show ?case
  proof (cases "amt > 0")
    case False
    then have "amt = 0" using \<open>0 \<le> amt\<close> by simp
    then have "rep_eat pref row sub amt = Inr (pref, row, sub)"
      by (subst rep_eat.simps) simp
    then show ?thesis using ok ls \<open>amt = 0\<close> \<open>\<forall>j<t. 0 \<le> sub ! j\<close> by simp
  next
    case True
    have sz: "\<And>j. j \<in> set pref \<Longrightarrow> sub ! j = 0" using True "1.prems"(5) by blast
    have "pref \<noteq> []"
    proof
      assume "pref = []"
      then have "\<forall>j<length row. row ! j = 0" using rz lr by simp
      then have "sum_list row = 0" by (rule sum_list_all_zero)
      then show False using True \<open>amt \<le> sum_list row\<close> by simp
    qed
    then obtain cur rest where pref: "pref = cur # rest" by (cases pref) auto
    have cur: "cur < t" "cur \<notin> set rest" "distinct rest" using d ss by (auto simp: pref)
    have n1: "nth_res pref 0 = Inr cur" by (simp add: pref nth_res_def)
    have n2: "nth_res row cur = Inr (row ! cur)" using cur(1) lr by (simp add: nth_res_Inr)
    have cl: "cur < length sub" "cur < length row" using cur(1) ls lr by simp_all
    have sc: "sub ! cur = 0" using sz by (simp add: pref)
    show ?thesis
    proof (cases "amt < row ! cur")
      case lt: True
      let ?row1 = "row[cur := row ! cur - amt]" and ?sub1 = "sub[cur := amt]"
      have ok1: "row_ok t pref ?row1"
        unfolding row_ok_def using d ss lr rn rz lt
        by (auto simp: nth_list_update pref)
      have s1: "sum_list ?row1 = sum_list row - amt" by (rule sum_list_upd_sub[OF cl(2)])
      have s2: "sum_list ?sub1 = sum_list sub + amt" by (rule sum_list_upd_zero[OF cl(1) sc])
      have p3: "0 \<le> amt - amt" "amt - amt \<le> sum_list ?row1"
        using s1 \<open>amt \<le> sum_list row\<close> by simp_all
      have p5: "amt - amt > 0 \<longrightarrow> (\<forall>j \<in> set pref. ?sub1 ! j = 0)" by simp
      have p6: "\<forall>j<t. 0 \<le> ?sub1 ! j"
        using \<open>\<forall>j<t. 0 \<le> sub ! j\<close> \<open>0 \<le> amt\<close> cl(1) by (simp add: nth_list_update)
      from "1.IH"(1)[OF True n1 n2 cl(1) lt ok1 _ p3 p5 p6] ls
      obtain pref' row' sub' where
        r: "rep_eat pref ?row1 ?sub1 (amt - amt) = Inr (pref', row', sub')"
           "row_ok t pref' row'" "length sub' = t"
           "\<forall>j<t. row' ! j + sub' ! j = ?row1 ! j + ?sub1 ! j"
           "sum_list sub' = sum_list ?sub1 + (amt - amt)"
           "sum_list row' = sum_list ?row1 - (amt - amt)"
           "\<forall>j<t. 0 \<le> sub' ! j"
        by auto
      have r1: "rep_eat pref ?row1 ?sub1 0 = Inr (pref', row', sub')" using r(1) by simp
      have e: "rep_eat pref row sub amt = Inr (pref', row', sub')"
        by (subst rep_eat.simps) (simp add: True n1 n2 cl lt r1)
      have c: "\<forall>j<t. row' ! j + sub' ! j = row ! j + sub ! j"
        using r(4) sc lr ls cl by (auto simp: nth_list_update)
      show ?thesis using e r(2,3,7) c r(5,6) s1 s2 by simp
    next
      case ge: False
      let ?row2 = "row[cur := row ! cur - row ! cur]" and ?sub2 = "sub[cur := row ! cur]"
      have ok2: "row_ok t (tl pref) ?row2"
        unfolding row_ok_def using cur lr rn rz ss
        by (auto simp: nth_list_update pref)
      have s1: "sum_list ?row2 = sum_list row - row ! cur" by (rule sum_list_upd_sub[OF cl(2)])
      have s2: "sum_list ?sub2 = sum_list sub + row ! cur" by (rule sum_list_upd_zero[OF cl(1) sc])
      have p3: "0 \<le> amt - row ! cur" "amt - row ! cur \<le> sum_list ?row2"
        using s1 \<open>amt \<le> sum_list row\<close> ge by simp_all
      have p5: "amt - row ! cur > 0 \<longrightarrow> (\<forall>j \<in> set (tl pref). ?sub2 ! j = 0)"
        using sz cur(2) cl(1) by (auto simp: nth_list_update pref)
      have p6: "\<forall>j<t. 0 \<le> ?sub2 ! j"
        using \<open>\<forall>j<t. 0 \<le> sub ! j\<close> rn[OF cur(1)] cl(1) by (simp add: nth_list_update)
      from "1.IH"(2)[OF True n1 n2 cl(1) ge ok2 _ p3 p5 p6] ls
      obtain pref' row' sub' where
        r: "rep_eat (tl pref) ?row2 ?sub2 (amt - row ! cur) = Inr (pref', row', sub')"
           "row_ok t pref' row'" "length sub' = t"
           "\<forall>j<t. row' ! j + sub' ! j = ?row2 ! j + ?sub2 ! j"
           "sum_list sub' = sum_list ?sub2 + (amt - row ! cur)"
           "sum_list row' = sum_list ?row2 - (amt - row ! cur)"
           "\<forall>j<t. 0 \<le> sub' ! j"
        by auto
      have r1: "rep_eat (tl pref) (row[cur := 0]) ?sub2 (amt - row ! cur) = Inr (pref', row', sub')"
        using r(1) by simp
      have e: "rep_eat pref row sub amt = Inr (pref', row', sub')"
        by (subst rep_eat.simps) (simp add: True n1 n2 cl ge r1)
      have c: "\<forall>j<t. row' ! j + sub' ! j = row ! j + sub ! j"
        using r(4) sc lr ls cl by (auto simp: nth_list_update)
      show ?thesis using e r(2,3,7) c r(5,6) s1 s2 by simp
    qed
  qed
qed

definition unit_row :: "nat \<Rightarrow> rat list \<Rightarrow> bool" where
  "unit_row t s = (length s = t \<and> sum_list s = 1 \<and> (\<forall>j<t. 0 \<le> s ! j))"

lemma col_sum_Cons: "col_sum (s # subs) j = s ! j + col_sum subs j"
  by (simp add: col_sum_def)

lemma col_sum_Nil: "col_sum [] j = 0"
  by (simp add: col_sum_def)

lemma col_sum_append: "col_sum (xs @ ys) j = col_sum xs j + col_sum ys j"
  by (simp add: col_sum_def)

lemma rep_one_spec:
  assumes "agent < length prefs" "agent < length alloc"
    and "row_ok t (prefs ! agent) (alloc ! agent)" "1 \<le> sum_list (alloc ! agent)" "t = c * n"
  shows "\<exists>pref' row' sub. rep_one n c agent (prefs, alloc, res)
             = Inr (prefs[agent := pref'], alloc[agent := row'], res @ [sub])
           \<and> row_ok t pref' row' \<and> sum_list row' = sum_list (alloc ! agent) - 1
           \<and> unit_row t sub \<and> (\<forall>j<t. row' ! j + sub ! j = alloc ! agent ! j)"
proof -
  have z: "sum_list (replicate t (0::rat)) = 0" by (simp add: sum_list_replicate)
  have "\<exists>pref' row' sub'. rep_eat (prefs ! agent) (alloc ! agent) (replicate t 0) 1 = Inr (pref', row', sub')
           \<and> row_ok t pref' row' \<and> length sub' = t
           \<and> (\<forall>j<t. row' ! j + sub' ! j = alloc ! agent ! j + replicate t 0 ! j)
           \<and> sum_list sub' = sum_list (replicate t (0::rat)) + 1
           \<and> sum_list row' = sum_list (alloc ! agent) - 1
           \<and> (\<forall>j<t. 0 \<le> sub' ! j)"
  proof (rule rep_eat_spec[OF assms(3) _ _ assms(4)])
    show "length (replicate t (0::rat)) = t" by simp
    show "(0::rat) \<le> 1" by simp
    show "(0::rat) < 1 \<longrightarrow> (\<forall>j\<in>set (prefs ! agent). replicate t (0::rat) ! j = 0)"
      using assms(3) by (auto simp: row_ok_def)
    show "\<forall>j<t. (0::rat) \<le> replicate t 0 ! j" by simp
  qed
  then obtain pref' row' sub' where
    r: "rep_eat (prefs ! agent) (alloc ! agent) (replicate t 0) 1 = Inr (pref', row', sub')"
       "row_ok t pref' row'" "length sub' = t"
       "\<forall>j<t. row' ! j + sub' ! j = alloc ! agent ! j + replicate t 0 ! j"
       "sum_list sub' = sum_list (replicate t (0::rat)) + 1"
       "sum_list row' = sum_list (alloc ! agent) - 1"
       "\<forall>j<t. 0 \<le> sub' ! j"
    by blast
  have e: "rep_one n c agent (prefs, alloc, res)
             = Inr (prefs[agent := pref'], alloc[agent := row'], res @ [sub'])"
    using r(1) assms(1,2) by (simp add: rep_one_def nth_res_Inr assms(5)[symmetric])
  have u: "unit_row t sub'" using r(3,5,7) z by (simp add: unit_row_def)
  have c: "\<forall>j<t. row' ! j + sub' ! j = alloc ! agent ! j" using r(4) by simp
  show ?thesis using e r(2,6) u c by blast
qed

lemma agent_reps_spec:
  assumes "agent < length prefs" "agent < length alloc"
    and "row_ok t (prefs ! agent) (alloc ! agent)"
    and "sum_list (alloc ! agent) = rat_of_nat (length rs)" "t = c * n"
  shows "\<exists>pref' row' subs. fold_res (\<lambda>rep. rep_one n c agent) rs (prefs, alloc, res)
             = Inr (prefs[agent := pref'], alloc[agent := row'], res @ subs)
           \<and> length subs = length rs \<and> (\<forall>s \<in> set subs. unit_row t s)
           \<and> (\<forall>j<t. col_sum subs j = alloc ! agent ! j)"
  using assms(1,2,3,4)
proof (induction rs arbitrary: prefs alloc res)
  case Nil
  have ok: "length (alloc ! agent) = t" "\<forall>j<t. 0 \<le> alloc ! agent ! j"
    using Nil.prems(3) by (simp_all add: row_ok_def)
  have "alloc ! agent ! j = 0" if "j < t" for j
    by (rule sum_list_zero_all) (use ok Nil.prems(4) that in simp_all)
  then have "\<forall>j<t. col_sum [] j = alloc ! agent ! j" by (simp add: col_sum_Nil)
  moreover have "fold_res (\<lambda>rep. rep_one n c agent) [] (prefs, alloc, res)
      = Inr (prefs[agent := prefs ! agent], alloc[agent := alloc ! agent], res @ [])"
    by simp
  ultimately show ?case by (metis length_0_conv empty_iff empty_set list.size(3))
next
  case (Cons r rs)
  have one: "1 \<le> sum_list (alloc ! agent)" using Cons.prems(4) by simp
  from rep_one_spec[OF Cons.prems(1,2,3) one assms(5), of res] obtain pref1 row1 sub where
    s: "rep_one n c agent (prefs, alloc, res)
          = Inr (prefs[agent := pref1], alloc[agent := row1], res @ [sub])"
       "row_ok t pref1 row1" "sum_list row1 = sum_list (alloc ! agent) - 1"
       "unit_row t sub" "\<forall>j<t. row1 ! j + sub ! j = alloc ! agent ! j"
    by blast
  let ?prefs1 = "prefs[agent := pref1]" and ?alloc1 = "alloc[agent := row1]"
  have p1: "agent < length ?prefs1" "agent < length ?alloc1"
    using Cons.prems(1,2) by simp_all
  have p3: "row_ok t (?prefs1 ! agent) (?alloc1 ! agent)"
    using s(2) Cons.prems(1,2) by simp
  have p4: "sum_list (?alloc1 ! agent) = rat_of_nat (length rs)"
    using s(3) Cons.prems(2,4) by simp
  from Cons.IH[OF p1 p3 p4, of "res @ [sub]"] obtain pref' row' subs where
    r: "fold_res (\<lambda>rep. rep_one n c agent) rs (?prefs1, ?alloc1, res @ [sub])
          = Inr (?prefs1[agent := pref'], ?alloc1[agent := row'], (res @ [sub]) @ subs)"
       "length subs = length rs" "\<forall>s \<in> set subs. unit_row t s"
       "\<forall>j<t. col_sum subs j = ?alloc1 ! agent ! j"
    by blast
  have e: "fold_res (\<lambda>rep. rep_one n c agent) (r # rs) (prefs, alloc, res)
          = Inr (prefs[agent := pref'], alloc[agent := row'], res @ (sub # subs))"
    using s(1) r(1) by simp
  have c: "\<forall>j<t. col_sum (sub # subs) j = alloc ! agent ! j"
    using r(4) s(5) Cons.prems(2) by (simp add: col_sum_Cons add.commute)
  have "length (sub # subs) = length (r # rs)" "\<forall>s \<in> set (sub # subs). unit_row t s"
    using r(2,3) s(4) by simp_all
  with e c show ?case by blast
qed

definition agent_block :: "nat \<Rightarrow> nat \<Rightarrow> rat list \<Rightarrow> rat list list \<Rightarrow> bool" where
  "agent_block t c row b =
     (length b = c \<and> (\<forall>s \<in> set b. unit_row t s) \<and> (\<forall>j<t. col_sum b j = row ! j))"

lemma all_agents_spec:
  assumes "distinct as"
    and "\<forall>a \<in> set as. a < length prefs \<and> a < length alloc
            \<and> row_ok t (prefs ! a) (alloc ! a) \<and> sum_list (alloc ! a) = rat_of_nat c"
    and "t = c * n"
  shows "\<exists>prefs' alloc' blocks.
           fold_res (\<lambda>agent. fold_res (\<lambda>rep. rep_one n c agent) [0..<c]) as (prefs, alloc, res)
             = Inr (prefs', alloc', res @ concat blocks)
           \<and> length blocks = length as
           \<and> (\<forall>p<length as. agent_block t c (alloc ! (as ! p)) (blocks ! p))"
  using assms(1,2)
proof (induction as arbitrary: prefs alloc res)
  case Nil
  show ?case by simp
next
  case (Cons a as)
  have a: "a < length prefs" "a < length alloc" "row_ok t (prefs ! a) (alloc ! a)"
    "sum_list (alloc ! a) = rat_of_nat (length [0..<c])"
    using Cons.prems(2) by simp_all
  from agent_reps_spec[OF a assms(3), of res] obtain pref' row' subs where
    s: "fold_res (\<lambda>rep. rep_one n c a) [0..<c] (prefs, alloc, res)
          = Inr (prefs[a := pref'], alloc[a := row'], res @ subs)"
       "length subs = length [0..<c]" "\<forall>s \<in> set subs. unit_row t s"
       "\<forall>j<t. col_sum subs j = alloc ! a ! j"
    by blast
  let ?prefs1 = "prefs[a := pref']" and ?alloc1 = "alloc[a := row']"
  have na: "a \<notin> set as" and d: "distinct as" using Cons.prems(1) by simp_all
  have same: "?prefs1 ! x = prefs ! x" "?alloc1 ! x = alloc ! x" if "x \<in> set as" for x
  proof -
    have "x \<noteq> a" using that na by blast
    then show "?prefs1 ! x = prefs ! x" "?alloc1 ! x = alloc ! x" by simp_all
  qed
  have p2: "\<forall>x \<in> set as. x < length ?prefs1 \<and> x < length ?alloc1
            \<and> row_ok t (?prefs1 ! x) (?alloc1 ! x) \<and> sum_list (?alloc1 ! x) = rat_of_nat c"
    using Cons.prems(2) same by simp
  from Cons.IH[OF d p2, of "res @ subs"] obtain prefs' alloc' blocks where
    r: "fold_res (\<lambda>agent. fold_res (\<lambda>rep. rep_one n c agent) [0..<c]) as (?prefs1, ?alloc1, res @ subs)
          = Inr (prefs', alloc', (res @ subs) @ concat blocks)"
       "length blocks = length as"
       "\<forall>p<length as. agent_block t c (?alloc1 ! (as ! p)) (blocks ! p)"
    by blast
  have e: "fold_res (\<lambda>agent. fold_res (\<lambda>rep. rep_one n c agent) [0..<c]) (a # as) (prefs, alloc, res)
          = Inr (prefs', alloc', res @ concat (subs # blocks))"
    using s(1) r(1) by simp
  have b0: "agent_block t c (alloc ! a) subs"
    using s(2,3,4) by (simp add: agent_block_def)
  have "agent_block t c (alloc ! ((a # as) ! p)) ((subs # blocks) ! p)" if "p < length (a # as)" for p
  proof (cases p)
    case 0
    then show ?thesis using b0 by simp
  next
    case (Suc q)
    then have q: "q < length as" using that by simp
    then have "as ! q \<in> set as" by simp
    then show ?thesis using r(3) q same(2) by (simp add: Suc)
  qed
  then show ?case using e r(2) by (intro exI[of _ prefs'] exI[of _ alloc'] exI[of _ "subs # blocks"]) simp
qed

lemma nth_concat_uniform:
  assumes "\<forall>b \<in> set bs. length b = c" "k < length bs" "r < c"
  shows "concat bs ! (k * c + r) = bs ! k ! r"
  using assms(1,2)
proof (induction bs arbitrary: k)
  case Nil
  then show ?case by simp
next
  case (Cons b bs)
  have lb: "length b = c" using Cons.prems(1) by simp
  show ?case
  proof (cases k)
    case 0
    then show ?thesis using lb assms(3) by (simp add: nth_append)
  next
    case (Suc k')
    have "concat bs ! (k' * c + r) = bs ! k' ! r"
      by (rule Cons.IH) (use Cons.prems Suc in simp_all)
    then show ?thesis using lb by (simp add: Suc nth_append)
  qed
qed

lemma length_concat_uniform:
  assumes "\<forall>b \<in> set bs. length b = c"
  shows "length (concat bs) = c * length bs"
  using assms by (induction bs) simp_all

lemma col_sum_concat: "col_sum (concat bs) j = sum_list (map (\<lambda>b. col_sum b j) bs)"
  by (induction bs) (simp_all add: col_sum_Nil col_sum_append)

text \<open>What \<open>representative\<close> does with the output of \<open>run_ps\<close>.\<close>

lemma representative_blocks:
  assumes v: "valid_profile n c prefs" and re: "rect n (c * n) alloc"
    and nn: "\<forall>i<n. \<forall>j<c * n. 0 \<le> alloc ! i ! j"
    and rs: "\<forall>i<n. sum_list (alloc ! i) = rat_of_nat c"
  shows "\<exists>prefs' alloc' blocks.
           representative prefs alloc n c = Inr (prefs', alloc', concat blocks)
           \<and> length blocks = n
           \<and> (\<forall>k<n. agent_block (c * n) c (alloc ! k) (blocks ! k))"
proof -
  note vd = valid_profileD[OF v]
  have pre: "\<forall>a \<in> set [0..<n]. a < length prefs \<and> a < length alloc
            \<and> row_ok (c * n) (prefs ! a) (alloc ! a) \<and> sum_list (alloc ! a) = rat_of_nat c"
  proof
    fix a assume "a \<in> set [0..<n]"
    then have a: "a < n" by simp
    then have m: "prefs ! a \<in> set prefs" using vd(2) by simp
    have "row_ok (c * n) (prefs ! a) (alloc ! a)"
      unfolding row_ok_def using vd(3)[OF m] vd(4)[OF m] rect_nth[OF re a] nn a by auto
    then show "a < length prefs \<and> a < length alloc
            \<and> row_ok (c * n) (prefs ! a) (alloc ! a) \<and> sum_list (alloc ! a) = rat_of_nat c"
      using a vd(2) re rs by (simp add: rect_def)
  qed
  from all_agents_spec[OF distinct_upt pre refl, of "[]"] obtain prefs' alloc' blocks where
    r: "fold_res (\<lambda>agent. fold_res (\<lambda>rep. rep_one n c agent) [0..<c]) [0..<n] (prefs, alloc, [])
          = Inr (prefs', alloc', [] @ concat blocks)"
       "length blocks = length [0..<n]"
       "\<forall>p<length [0..<n]. agent_block (c * n) c (alloc ! ([0..<n] ! p)) (blocks ! p)"
    by blast
  have "representative prefs alloc n c = Inr (prefs', alloc', concat blocks)"
    using r(1) by (simp add: representative_def)
  moreover have "length blocks = n" using r(2) by simp
  moreover have "\<forall>k<n. agent_block (c * n) c (alloc ! k) (blocks ! k)"
    using r(3) by simp
  ultimately show ?thesis by blast
qed

text \<open>
  Claim C5. Given a valid profile and the allocation \<open>run_ps\<close> returns for it,
  \<open>representative\<close> returns (raising nothing) exactly \<open>c n\<close> rows of length \<open>c n\<close>, each
  summing to exactly 1; rows \<open>k c .. (k + 1) c - 1\<close> belong to agent \<open>k\<close>: for every column
  their entries add up to agent \<open>k\<close>'s entry of the original allocation.
\<close>

theorem representative_rows:
  assumes "valid_profile n c prefs" and "run_ps n c prefs = Some (Inr alloc)"
  shows "\<exists>prefs' alloc' res. representative prefs alloc n c = Inr (prefs', alloc', res)
           \<and> length res = c * n
           \<and> (\<forall>q<c * n. length (res ! q) = c * n \<and> sum_list (res ! q) = 1)
           \<and> (\<forall>k<n. \<forall>j<c * n. (\<Sum>r<c. res ! (k * c + r) ! j) = alloc ! k ! j)"
proof -
  from run_ps_result[OF assms(1)] assms(2) have
    a: "rect n (c * n) alloc" "\<forall>i<n. \<forall>j<c * n. 0 \<le> alloc ! i ! j"
       "\<forall>i<n. sum_list (alloc ! i) = rat_of_nat c"
    by auto
  from representative_blocks[OF assms(1) a] obtain prefs' alloc' blocks where
    r: "representative prefs alloc n c = Inr (prefs', alloc', concat blocks)"
       "length blocks = n"
       "\<forall>k<n. agent_block (c * n) c (alloc ! k) (blocks ! k)"
    by blast
  have len: "\<forall>b \<in> set blocks. length b = c"
    using r(2,3) by (auto simp: in_set_conv_nth agent_block_def)
  have l: "length (concat blocks) = c * n"
    using length_concat_uniform[OF len] r(2) by simp
  have rows: "length (concat blocks ! q) = c * n \<and> sum_list (concat blocks ! q) = 1"
    if q: "q < c * n" for q
  proof -
    have cpos: "0 < c" using q by (cases c) simp_all
    have k: "q div c < n" using q cpos by (simp add: less_mult_imp_div_less mult.commute)
    have rr: "q mod c < c" using cpos by simp
    have "concat blocks ! (q div c * c + q mod c) = blocks ! (q div c) ! (q mod c)"
      by (rule nth_concat_uniform[OF len _ rr]) (use k r(2) in simp)
    then have e: "concat blocks ! q = blocks ! (q div c) ! (q mod c)" by simp
    have b: "agent_block (c * n) c (alloc ! (q div c)) (blocks ! (q div c))" using r(3) k by blast
    then have "blocks ! (q div c) ! (q mod c) \<in> set (blocks ! (q div c))"
      using rr by (simp add: agent_block_def)
    then have "unit_row (c * n) (blocks ! (q div c) ! (q mod c))"
      using b by (simp add: agent_block_def)
    then show ?thesis by (simp add: e unit_row_def)
  qed
  have sums: "(\<Sum>r<c. concat blocks ! (k * c + r) ! j) = alloc ! k ! j"
    if k: "k < n" and j: "j < c * n" for k j
  proof -
    have b: "agent_block (c * n) c (alloc ! k) (blocks ! k)" using r(3) k by blast
    then have lb: "length (blocks ! k) = c" by (simp add: agent_block_def)
    have "(\<Sum>r<c. concat blocks ! (k * c + r) ! j) = (\<Sum>r<c. blocks ! k ! r ! j)"
    proof (rule sum.cong)
      fix x assume "x \<in> {..<c}"
      then have "x < c" by simp
      from nth_concat_uniform[OF len _ this, of k] k r(2)
      show "concat blocks ! (k * c + x) ! j = blocks ! k ! x ! j" by simp
    qed (rule refl)
    also have "\<dots> = col_sum (blocks ! k) j"
      using lb by (simp add: col_sum_def sum_list_sum_nth atLeast0LessThan)
    also have "\<dots> = alloc ! k ! j" using b j by (simp add: agent_block_def)
    finally show ?thesis .
  qed
  show ?thesis using r(1) l rows sums by blast
qed

theorem representative_rows_witness:
  "valid_profile 3 2 [[0, 1, 2, 3, 4, 5], [0, 2, 1, 3, 4, 5], [3, 2, 1, 0, 4, 5]]
   \<and> run_ps 3 2 [[0, 1, 2, 3, 4, 5], [0, 2, 1, 3, 4, 5], [3, 2, 1, 0, 4, 5]]
       = Some (Inr [[1 / 2, 5 / 6, 0, 0, 1 / 3, 1 / 3],
                    [1 / 2, 1 / 12, 3 / 4, 0, 1 / 3, 1 / 3],
                    [0, 1 / 12, 1 / 4, 1, 1 / 3, 1 / 3]])
   \<and> (\<exists>prefs' alloc' res.
         representative [[0, 1, 2, 3, 4, 5], [0, 2, 1, 3, 4, 5], [3, 2, 1, 0, 4, 5]]
           [[1 / 2, 5 / 6, 0, 0, 1 / 3, 1 / 3],
            [1 / 2, 1 / 12, 3 / 4, 0, 1 / 3, 1 / 3],
            [0, 1 / 12, 1 / 4, 1, 1 / 3, 1 / 3]] 3 2 = Inr (prefs', alloc', res)
         \<and> length res = 6 \<and> sum_list (res ! 3) = 1
         \<and> (\<Sum>r<2. res ! (1 * 2 + r) ! 2) = 3 / 4)"
proof -
  let ?P = "[[0, 1, 2, 3, 4, 5], [0, 2, 1, 3, 4, 5], [3, 2, 1, 0, 4, 5 :: nat]]"
  let ?A = "[[1 / 2, 5 / 6, 0, 0, 1 / 3, 1 / 3],
             [1 / 2, 1 / 12, 3 / 4, 0, 1 / 3, 1 / 3],
             [0, 1 / 12, 1 / 4, 1, 1 / 3, 1 / 3 :: rat]]"
  have v: "valid_profile 3 2 ?P" by code_simp
  have p: "run_ps 3 2 ?P = Some (Inr ?A)" by code_simp
  from representative_rows[OF v p] obtain prefs' alloc' res where
    r: "representative ?P ?A 3 2 = Inr (prefs', alloc', res)" "length res = 2 * 3"
       "\<forall>q<2 * 3. length (res ! q) = 2 * 3 \<and> sum_list (res ! q) = 1"
       "\<forall>k<3. \<forall>j<2 * 3. (\<Sum>r<2. res ! (k * 2 + r) ! j) = ?A ! k ! j"
    by blast
  have "sum_list (res ! 3) = 1" using r(3) by simp
  moreover have "(\<Sum>r<2. res ! (1 * 2 + r) ! 2) = ?A ! 1 ! 2"
    using r(4)[rule_format, of 1 2] by simp
  ultimately show ?thesis using v p r(1,2) by simp
qed

text \<open>
  Claim C9 on the code. \<open>run_ps\<close> works on a deep copy, but \<open>representative\<close> does not:
  on the pipeline's own data for the utilities \<open>[[2, 1], [1, 2]]\<close> it pops the caller's
  preference lists \<open>[[0, 1], [1, 0]]\<close> down to \<open>[[1], [0]]\<close> (and zeroes the caller's
  allocation).
\<close>

theorem representative_consumes_prefs:
  "generate_prefs [[2, 1], [1, 2]] = Inr (2, 2, 1, [[0, 1], [1, 0]])
   \<and> run_ps 2 1 [[0, 1], [1, 0]] = Some (Inr [[1, 0], [0, 1]])
   \<and> representative [[0, 1], [1, 0]] [[1, 0], [0, 1]] 2 1
       = Inr ([[1], [0]], [[0, 0], [0, 0]], [[1, 0], [0, 1]])"
  by code_simp

end
